theory Spec2Isabelle
  imports Main "HOL-Library.Word" "HOL-Library.Signed_Division"
begin

section \<open>Data model\<close>

text \<open>
  The clipper works on 16-bit signed integers (\<^verbatim>\<open>int16_t\<close>): every local of
  \<^verbatim>\<open>TwoAxisPolygonClip\<close> has that type. A value is a 16-bit word, read as a signed
  number with \<^term>\<open>sint\<close>.
\<close>

type_synonym int16_t = "16 word"

text \<open>
  Modelled from the spec: the header \<^verbatim>\<open>TwoAxisPolygonClip.h\<close>, which declares
  \<^verbatim>\<open>vertex\<close> and \<^verbatim>\<open>clipRect\<close>, is not part of the sources. The fields are the
  ones the function reads and writes; their type is that of the locals they are copied to
  and from (the spec: signed integer coordinates in the 16-bit range).
\<close>

record vertex =
  x :: int16_t
  y :: int16_t

record clipRect =
  clipLeft :: int16_t
  clipRight :: int16_t
  clipBottom :: int16_t
  clipTop :: int16_t

text \<open>
  What C leaves undefined is an error value of the model: an array access outside the
  array, a division by zero, and an overflow of the \<^verbatim>\<open>int\<close> arithmetic to which the
  16-bit operands are promoted (\<^verbatim>\<open>int\<close> is taken to have 32 bits).
\<close>

datatype error = OutOfBounds | DivideByZero | SignedOverflow

definition ebind :: "error + 'a \<Rightarrow> ('a \<Rightarrow> error + 'b) \<Rightarrow> error + 'b" where
  "ebind m f = (case m of Inl e \<Rightarrow> Inl e | Inr v \<Rightarrow> f v)"

definition int_ok :: "int \<Rightarrow> bool" where
  "int_ok v \<longleftrightarrow> - (2 ^ 31) \<le> v \<and> v < 2 ^ 31"

text \<open>
  The arrays are lists; the index is the signed value of an \<^verbatim>\<open>int16_t\<close>.
  \<^verbatim>\<open>buf[i].x = a; buf[i].y = b;\<close> overwrites both fields of entry \<open>i\<close>.
\<close>

definition rd :: "vertex list \<Rightarrow> int16_t \<Rightarrow> error + vertex" where
  "rd buf i =
     (if 0 \<le> sint i \<and> nat (sint i) < length buf then Inr (buf ! nat (sint i))
      else Inl OutOfBounds)"

definition wr :: "vertex list \<Rightarrow> int16_t \<Rightarrow> int16_t \<Rightarrow> int16_t \<Rightarrow> error + vertex list" where
  "wr buf i a b =
     (if 0 \<le> sint i \<and> nat (sint i) < length buf
      then Inr (buf[nat (sint i) := \<lparr>x = a, y = b\<rparr>])
      else Inl OutOfBounds)"

section \<open>Linear interpolation\<close>

text \<open>
  \<^verbatim>\<open>a + ((b - a) * (c - p)) / (q - p)\<close>, the expression of all eight interpolations:
  the operands are promoted to \<^verbatim>\<open>int\<close>, \<^verbatim>\<open>/\<close> truncates towards zero
  (\<^term>\<open>(sdiv)\<close> on \<^typ>\<open>int\<close>), and the result is narrowed to 16 bits when it is
  assigned (two's complement: \<^term>\<open>word_of_int\<close>). The differences of two 16-bit values
  always fit an \<^verbatim>\<open>int\<close>; the product, the quotient and the sum are checked. A divisor
  of zero is reported first, so that \<^term>\<open>DivideByZero\<close> is the result whenever an
  interpolation is reached with an edge delta of 0.
\<close>

definition interpolate ::
  "int16_t \<Rightarrow> int16_t \<Rightarrow> int16_t \<Rightarrow> int16_t \<Rightarrow> int16_t \<Rightarrow> error + int16_t" where
  "interpolate a b c p q =
     (let num = (sint b - sint a) * (sint c - sint p);
          den = sint q - sint p
      in if den = 0 then Inl DivideByZero
         else if \<not> int_ok num then Inl SignedOverflow
         else if \<not> int_ok (num sdiv den) then Inl SignedOverflow
         else if \<not> int_ok (sint a + num sdiv den) then Inl SignedOverflow
         else Inr (word_of_int (sint a + num sdiv den)))"

section \<open>The X pass\<close>

text \<open>
  Lines 94 to 131: the orientation test and the two branches, for the edge from
  \<open>(rx1, ry1)\<close> to \<open>(rx2, ry2)\<close>. The result is the new \<open>pIndex\<close> and the new
  \<open>clipBuffer\<close>; the \<^verbatim>\<open>goto lr_boundOut\<close> of a rejected edge returns both unchanged.
  \<open>pIndex++\<close> is addition on 16-bit words.
\<close>

definition xedge ::
  "int16_t \<Rightarrow> int16_t \<Rightarrow> int16_t \<Rightarrow> vertex list \<Rightarrow>
   int16_t \<Rightarrow> int16_t \<Rightarrow> int16_t \<Rightarrow> int16_t \<Rightarrow> error + (int16_t \<times> vertex list)" where
  "xedge clip_left clip_right pIndex clipBuffer rx1 ry1 rx2 ry2 =
     (if sint rx1 > sint rx2 then
        if sint rx1 < sint clip_left \<or> sint rx2 > sint clip_right
        then Inr (pIndex, clipBuffer)
        else
          ebind (if sint rx1 > sint clip_right
                 then ebind (interpolate ry1 ry2 clip_right rx1 rx2)
                        (\<lambda>ry1. Inr (clip_right, ry1))
                 else Inr (rx1, ry1)) (\<lambda>(rx1, ry1).
          ebind (wr clipBuffer pIndex rx1 ry1) (\<lambda>clipBuffer.
          let pIndex = pIndex + 1 in
          if sint rx2 < sint clip_left then
            ebind (interpolate ry2 ry1 clip_left rx2 rx1) (\<lambda>cy.
            ebind (wr clipBuffer pIndex clip_left cy) (\<lambda>clipBuffer.
            Inr (pIndex + 1, clipBuffer)))
          else Inr (pIndex, clipBuffer)))
      else
        if sint rx2 < sint clip_left \<or> sint rx1 > sint clip_right
        then Inr (pIndex, clipBuffer)
        else
          ebind (if sint rx1 < sint clip_left
                 then ebind (interpolate ry1 ry2 clip_left rx1 rx2)
                        (\<lambda>ry1. Inr (clip_left, ry1))
                 else Inr (rx1, ry1)) (\<lambda>(rx1, ry1).
          ebind (wr clipBuffer pIndex rx1 ry1) (\<lambda>clipBuffer.
          let pIndex = pIndex + 1 in
          if sint rx2 > sint clip_right then
            ebind (interpolate ry2 ry1 clip_right rx2 rx1) (\<lambda>cy.
            ebind (wr clipBuffer pIndex clip_right cy) (\<lambda>clipBuffer.
            Inr (pIndex + 1, clipBuffer)))
          else Inr (pIndex, clipBuffer))))"

text \<open>
  One iteration of the loop (lines 88 to 135), \<open>nVertices\<close> already decremented: read
  the end point, save it in \<open>ox1, oy1\<close>, process the edge, and at \<^verbatim>\<open>lr_boundOut\<close>
  make the saved point the start of the next edge. The result is the next
  \<open>(rx1, ry1)\<close>, \<open>pIndex\<close> and \<open>clipBuffer\<close>.
\<close>

definition xstep ::
  "vertex list \<Rightarrow> int16_t \<Rightarrow> int16_t \<Rightarrow> int16_t \<Rightarrow>
   int16_t \<Rightarrow> int16_t \<Rightarrow> int16_t \<Rightarrow> vertex list \<Rightarrow>
   error + (int16_t \<times> int16_t \<times> int16_t \<times> vertex list)" where
  "xstep sourcePolygon nVertices clip_left clip_right rx1 ry1 pIndex clipBuffer =
     ebind (rd sourcePolygon nVertices) (\<lambda>v.
     let rx2 = x v; ry2 = y v; ox1 = rx2; oy1 = ry2 in
     ebind (xedge clip_left clip_right pIndex clipBuffer rx1 ry1 rx2 ry2)
       (\<lambda>(pIndex, clipBuffer). Inr (ox1, oy1, pIndex, clipBuffer)))"

text \<open>\<^verbatim>\<open>while (nVertices--) { ... }\<close> of lines 87 to 136.\<close>

function xloop ::
  "vertex list \<Rightarrow> int16_t \<Rightarrow> int16_t \<Rightarrow> int16_t \<Rightarrow>
   int16_t \<Rightarrow> int16_t \<Rightarrow> int16_t \<Rightarrow> vertex list \<Rightarrow> error + (int16_t \<times> vertex list)" where
  "xloop sourcePolygon nVertices clip_left clip_right rx1 ry1 pIndex clipBuffer =
     (if nVertices = 0 then Inr (pIndex, clipBuffer)
      else
        case xstep sourcePolygon (nVertices - 1) clip_left clip_right rx1 ry1 pIndex clipBuffer of
          Inl e \<Rightarrow> Inl e
        | Inr (rx1, ry1, pIndex, clipBuffer) \<Rightarrow>
            xloop sourcePolygon (nVertices - 1) clip_left clip_right rx1 ry1 pIndex clipBuffer)"
  by pat_completeness auto
termination
  by (relation "measure (\<lambda>(s, n, l, r, a, b, i, buf). unat n)")
     (auto simp: unat_minus_one unat_gt_0)

text \<open>Lines 81 to 136: the X pass, from the source polygon to \<open>clipBuffer\<close>.\<close>

definition xpass ::
  "vertex list \<Rightarrow> int16_t \<Rightarrow> clipRect \<Rightarrow> vertex list \<Rightarrow> error + (int16_t \<times> vertex list)" where
  "xpass sourcePolygon nVertices clipRectangle clipBuffer =
     ebind (rd sourcePolygon 0) (\<lambda>v.
     xloop sourcePolygon nVertices (clipLeft clipRectangle) (clipRight clipRectangle)
       (x v) (y v) 0 clipBuffer)"

section \<open>The Y pass\<close>

text \<open>Lines 157 to 189: as \<^const>\<open>xedge\<close>, on the other axis.\<close>

definition yedge ::
  "int16_t \<Rightarrow> int16_t \<Rightarrow> int16_t \<Rightarrow> vertex list \<Rightarrow>
   int16_t \<Rightarrow> int16_t \<Rightarrow> int16_t \<Rightarrow> int16_t \<Rightarrow> error + (int16_t \<times> vertex list)" where
  "yedge clip_top clip_bottom pIndex clippedPolygon rx1 ry1 rx2 ry2 =
     (if sint ry1 > sint ry2 then
        if sint ry1 < sint clip_top \<or> sint ry2 > sint clip_bottom
        then Inr (pIndex, clippedPolygon)
        else
          ebind (if sint ry1 > sint clip_bottom
                 then ebind (interpolate rx1 rx2 clip_bottom ry1 ry2)
                        (\<lambda>rx1. Inr (rx1, clip_bottom))
                 else Inr (rx1, ry1)) (\<lambda>(rx1, ry1).
          ebind (wr clippedPolygon pIndex rx1 ry1) (\<lambda>clippedPolygon.
          let pIndex = pIndex + 1 in
          if sint ry2 < sint clip_top then
            ebind (interpolate rx2 rx1 clip_top ry2 ry1) (\<lambda>cx.
            ebind (wr clippedPolygon pIndex cx clip_top) (\<lambda>clippedPolygon.
            Inr (pIndex + 1, clippedPolygon)))
          else Inr (pIndex, clippedPolygon)))
      else
        if sint ry2 < sint clip_top \<or> sint ry1 > sint clip_bottom
        then Inr (pIndex, clippedPolygon)
        else
          ebind (if sint ry1 < sint clip_top
                 then ebind (interpolate rx1 rx2 clip_top ry1 ry2)
                        (\<lambda>rx1. Inr (rx1, clip_top))
                 else Inr (rx1, ry1)) (\<lambda>(rx1, ry1).
          ebind (wr clippedPolygon pIndex rx1 ry1) (\<lambda>clippedPolygon.
          let pIndex = pIndex + 1 in
          if sint ry2 > sint clip_bottom then
            ebind (interpolate rx2 rx1 clip_bottom ry2 ry1) (\<lambda>cx.
            ebind (wr clippedPolygon pIndex cx clip_bottom) (\<lambda>clippedPolygon.
            Inr (pIndex + 1, clippedPolygon)))
          else Inr (pIndex, clippedPolygon))))"

text \<open>One iteration of the second loop (lines 152 to 193).\<close>

definition ystep ::
  "vertex list \<Rightarrow> int16_t \<Rightarrow> int16_t \<Rightarrow> int16_t \<Rightarrow>
   int16_t \<Rightarrow> int16_t \<Rightarrow> int16_t \<Rightarrow> vertex list \<Rightarrow>
   error + (int16_t \<times> int16_t \<times> int16_t \<times> vertex list)" where
  "ystep clipBuffer nVertices clip_top clip_bottom rx1 ry1 pIndex clippedPolygon =
     ebind (rd clipBuffer nVertices) (\<lambda>v.
     let rx2 = x v; ry2 = y v; ox1 = rx2; oy1 = ry2 in
     ebind (yedge clip_top clip_bottom pIndex clippedPolygon rx1 ry1 rx2 ry2)
       (\<lambda>(pIndex, clippedPolygon). Inr (ox1, oy1, pIndex, clippedPolygon)))"

text \<open>\<^verbatim>\<open>while (nVertices--) { ... }\<close> of lines 151 to 194.\<close>

function yloop ::
  "vertex list \<Rightarrow> int16_t \<Rightarrow> int16_t \<Rightarrow> int16_t \<Rightarrow>
   int16_t \<Rightarrow> int16_t \<Rightarrow> int16_t \<Rightarrow> vertex list \<Rightarrow> error + (int16_t \<times> vertex list)" where
  "yloop clipBuffer nVertices clip_top clip_bottom rx1 ry1 pIndex clippedPolygon =
     (if nVertices = 0 then Inr (pIndex, clippedPolygon)
      else
        case ystep clipBuffer (nVertices - 1) clip_top clip_bottom rx1 ry1 pIndex clippedPolygon of
          Inl e \<Rightarrow> Inl e
        | Inr (rx1, ry1, pIndex, clippedPolygon) \<Rightarrow>
            yloop clipBuffer (nVertices - 1) clip_top clip_bottom rx1 ry1 pIndex clippedPolygon)"
  by pat_completeness auto
termination
  by (relation "measure (\<lambda>(s, n, l, r, a, b, i, buf). unat n)")
     (auto simp: unat_minus_one unat_gt_0)

text \<open>Lines 145 to 194: the Y pass, from \<open>clipBuffer\<close> to \<open>clippedPolygon\<close>.\<close>

definition ypass ::
  "vertex list \<Rightarrow> int16_t \<Rightarrow> clipRect \<Rightarrow> vertex list \<Rightarrow> error + (int16_t \<times> vertex list)" where
  "ypass clipBuffer nVertices clipRectangle clippedPolygon =
     ebind (rd clipBuffer 0) (\<lambda>v.
     yloop clipBuffer nVertices (clipTop clipRectangle) (clipBottom clipRectangle)
       (x v) (y v) 0 clippedPolygon)"

section \<open>The clipper\<close>

text \<open>
  The three arrays are taken to be disjoint, as in the call the source documents. The
  result is the returned count and the two buffers as the call leaves them.
\<close>

definition TwoAxisPolygonClip ::
  "vertex list \<Rightarrow> int16_t \<Rightarrow> clipRect \<Rightarrow> vertex list \<Rightarrow> vertex list \<Rightarrow>
   error + (int16_t \<times> vertex list \<times> vertex list)" where
  "TwoAxisPolygonClip sourcePolygon nVertices clipRectangle clipBuffer clippedPolygon =
     ebind (xpass sourcePolygon nVertices clipRectangle clipBuffer) (\<lambda>(pIndex, clipBuffer).
     if sint pIndex < 3 then Inr (pIndex, clipBuffer, clippedPolygon)
     else
       ebind (ypass clipBuffer pIndex clipRectangle clippedPolygon) (\<lambda>(pIndex, clippedPolygon).
       Inr (pIndex, clipBuffer, clippedPolygon)))"

section \<open>Predicates of the claims\<close>

text \<open>The invariant of a clip region in the data model: left \<open>\<le>\<close> right and top \<open>\<le>\<close> bottom.\<close>

definition clipRect_ok :: "clipRect \<Rightarrow> bool" where
  "clipRect_ok r \<longleftrightarrow>
     sint (clipLeft r) \<le> sint (clipRight r) \<and> sint (clipTop r) \<le> sint (clipBottom r)"

text \<open>A vertex inside the clip region, its bounds included.\<close>

definition inside :: "clipRect \<Rightarrow> vertex \<Rightarrow> bool" where
  "inside r v \<longleftrightarrow>
     sint (clipLeft r) \<le> sint (x v) \<and> sint (x v) \<le> sint (clipRight r) \<and>
     sint (clipTop r) \<le> sint (y v) \<and> sint (y v) \<le> sint (clipBottom r)"

text \<open>A vertex in a box of integer bounds, and a buffer whose entries below \<open>pIndex\<close>
  exist and satisfy a predicate: the invariant of a pass over its output buffer.\<close>

definition in_box :: "int \<Rightarrow> int \<Rightarrow> int \<Rightarrow> int \<Rightarrow> vertex \<Rightarrow> bool" where
  "in_box xlo xhi ylo yhi v \<longleftrightarrow>
     xlo \<le> sint (x v) \<and> sint (x v) \<le> xhi \<and> ylo \<le> sint (y v) \<and> sint (y v) \<le> yhi"

definition stored :: "(vertex \<Rightarrow> bool) \<Rightarrow> int16_t \<Rightarrow> vertex list \<Rightarrow> bool" where
  "stored P pIndex buf \<longleftrightarrow>
     (\<forall>k. 0 \<le> k \<and> k < sint pIndex \<longrightarrow> nat k < length buf \<and> P (buf ! nat k))"

text \<open>
  A polygon entirely beyond one bound of the region: all vertices left of the left bound
  or all right of the right bound (\<open>x_outside\<close>), all above the top bound or all below
  the bottom bound (\<open>y_outside\<close>).
\<close>

definition x_outside :: "clipRect \<Rightarrow> vertex list \<Rightarrow> bool" where
  "x_outside r vs \<longleftrightarrow>
     list_all (\<lambda>v. sint (x v) < sint (clipLeft r)) vs \<or>
     list_all (\<lambda>v. sint (clipRight r) < sint (x v)) vs"

definition y_outside :: "clipRect \<Rightarrow> vertex list \<Rightarrow> bool" where
  "y_outside r vs \<longleftrightarrow>
     list_all (\<lambda>v. sint (y v) < sint (clipTop r)) vs \<or>
     list_all (\<lambda>v. sint (clipBottom r) < sint (y v)) vs"

text \<open>
  A polygon whose extent in \<open>y\<close> is at most 32767: the products of the X pass then fit a
  32-bit \<^verbatim>\<open>int\<close>.
\<close>

definition height_ok :: "vertex list \<Rightarrow> bool" where
  "height_ok vs \<longleftrightarrow> (\<forall>v\<in>set vs. \<forall>w\<in>set vs. \<bar>sint (y v) - sint (y w)\<bar> \<le> 32767)"

declare xloop.simps [simp del] yloop.simps [simp del]

lemmas clip_defs =
  TwoAxisPolygonClip_def xpass_def ypass_def xloop.simps yloop.simps xstep_def ystep_def
  xedge_def yedge_def rd_def wr_def ebind_def interpolate_def int_ok_def Let_def

section \<open>Concrete runs\<close>

text \<open>
  Claim C1: the square \<open>(0,0), (10,0), (10,10), (0,10)\<close>, clipped against left 5,
  right 15, top -5, bottom 15 with buffers of 8 entries, returns 4, and the first four
  entries of the output buffer are \<open>(5,10), (5,0), (10,0), (10,10)\<close>: the rectangle
  \<open>(5,0), (10,0), (10,10), (5,10)\<close> as a closed polygon, its traversal started at
  \<open>(5,10)\<close>.
\<close>

theorem C1_square_clipped:
  "TwoAxisPolygonClip
     [\<lparr>x = 0, y = 0\<rparr>, \<lparr>x = 10, y = 0\<rparr>, \<lparr>x = 10, y = 10\<rparr>, \<lparr>x = 0, y = 10\<rparr>] 4
     \<lparr>clipLeft = 5, clipRight = 15, clipBottom = 15, clipTop = - 5\<rparr>
     [c0, c1, c2, c3, c4, c5, c6, c7] [d0, d1, d2, d3, d4, d5, d6, d7]
   = Inr (4,
       [\<lparr>x = 5, y = 10\<rparr>, \<lparr>x = 10, y = 10\<rparr>, \<lparr>x = 10, y = 0\<rparr>, \<lparr>x = 5, y = 0\<rparr>,
        c4, c5, c6, c7],
       [\<lparr>x = 5, y = 10\<rparr>, \<lparr>x = 5, y = 0\<rparr>, \<lparr>x = 10, y = 0\<rparr>, \<lparr>x = 10, y = 10\<rparr>,
        d4, d5, d6, d7])
   \<and> take 4 [\<lparr>x = 5, y = 10\<rparr>, \<lparr>x = 5, y = 0\<rparr>, \<lparr>x = 10, y = 0\<rparr>, \<lparr>x = 10, y = 10\<rparr>,
        d4, d5, d6, d7]
     = rotate 3 [\<lparr>x = 5, y = 0\<rparr>, \<lparr>x = 10, y = 0\<rparr>, \<lparr>x = 10, y = 10\<rparr>, \<lparr>x = 5, y = (10 :: int16_t)\<rparr>]"
  by (intro conjI) (simp_all add: clip_defs numeral_3_eq_3)

text \<open>
  Claim C4, at the input where the code departs from it: the triangles
  \<open>(0,0), (3,2), (0,5)\<close> and \<open>(3,2), (0,0), (3,-5)\<close> share the edge from \<open>(0,0)\<close> to
  \<open>(3,2)\<close>, which crosses both the left bound 1 and the right bound 2. The first
  triangle traverses the edge from \<open>(3,2)\<close> and puts \<open>(2,2)\<close> and \<open>(1,1)\<close> on the
  bounds; the second traverses it from \<open>(0,0)\<close> and puts \<open>(1,0)\<close> and \<open>(2,1)\<close> there.
\<close>

theorem C4_shared_edge_runs:
  "TwoAxisPolygonClip [\<lparr>x = 0, y = 0\<rparr>, \<lparr>x = 3, y = 2\<rparr>, \<lparr>x = 0, y = 5\<rparr>] 3
     \<lparr>clipLeft = 1, clipRight = 2, clipBottom = 15, clipTop = - 5\<rparr>
     [c0, c1, c2, c3, c4, c5] [d0, d1, d2, d3, d4, d5]
   = Inr (4,
       [\<lparr>x = 1, y = 4\<rparr>, \<lparr>x = 2, y = 3\<rparr>, \<lparr>x = 2, y = 2\<rparr>, \<lparr>x = 1, y = 1\<rparr>, c4, c5],
       [\<lparr>x = 1, y = 4\<rparr>, \<lparr>x = 1, y = 1\<rparr>, \<lparr>x = 2, y = 2\<rparr>, \<lparr>x = 2, y = 3\<rparr>, d4, d5])
   \<and> TwoAxisPolygonClip [\<lparr>x = 3, y = 2\<rparr>, \<lparr>x = 0, y = 0\<rparr>, \<lparr>x = 3, y = - 5\<rparr>] 3
     \<lparr>clipLeft = 1, clipRight = 2, clipBottom = 15, clipTop = - 5\<rparr>
     [c0, c1, c2, c3, c4, c5] [d0, d1, d2, d3, d4, d5]
   = Inr (4,
       [\<lparr>x = 2, y = - 4\<rparr>, \<lparr>x = 1, y = - 2\<rparr>, \<lparr>x = 1, y = 0\<rparr>, \<lparr>x = 2, y = 1\<rparr>, c4, c5],
       [\<lparr>x = 2, y = - 4\<rparr>, \<lparr>x = 2, y = 1\<rparr>, \<lparr>x = 1, y = 0\<rparr>, \<lparr>x = 1, y = - 2\<rparr>, d4, d5])"
  by (simp add: clip_defs)

text \<open>
  Claim C6, at the input where the code departs from it: the triangle
  \<open>(20,-14), (-14,20), (54,54)\<close> clipped against the square from \<open>(0,0)\<close> to
  \<open>(30,30)\<close> has seven vertices. With buffers of \<open>2 \<times> 3 = 6\<close> entries the seventh
  write, at index 6 of the output buffer, is outside the buffer; with buffers of 8
  entries the call returns 7.
\<close>

theorem C6_triangle_overruns:
  "TwoAxisPolygonClip [\<lparr>x = 20, y = - 14\<rparr>, \<lparr>x = - 14, y = 20\<rparr>, \<lparr>x = 54, y = 54\<rparr>] 3
     \<lparr>clipLeft = 0, clipRight = 30, clipBottom = 30, clipTop = 0\<rparr>
     [c0, c1, c2, c3, c4, c5] [d0, d1, d2, d3, d4, d5]
   = Inl OutOfBounds
   \<and> TwoAxisPolygonClip [\<lparr>x = 20, y = - 14\<rparr>, \<lparr>x = - 14, y = 20\<rparr>, \<lparr>x = 54, y = 54\<rparr>] 3
     \<lparr>clipLeft = 0, clipRight = 30, clipBottom = 30, clipTop = 0\<rparr>
     [c0, c1, c2, c3, c4, c5, c6, c7] [d0, d1, d2, d3, d4, d5, d6, d7]
   = Inr (7,
       [\<lparr>x = 20, y = - 14\<rparr>, \<lparr>x = 30, y = 6\<rparr>, \<lparr>x = 30, y = 42\<rparr>, \<lparr>x = 0, y = 27\<rparr>,
        \<lparr>x = 0, y = 6\<rparr>, c5, c6, c7],
       [\<lparr>x = 6, y = 0\<rparr>, \<lparr>x = 0, y = 6\<rparr>, \<lparr>x = 0, y = 27\<rparr>, \<lparr>x = 6, y = 30\<rparr>,
        \<lparr>x = 30, y = 30\<rparr>, \<lparr>x = 30, y = 6\<rparr>, \<lparr>x = 27, y = 0\<rparr>, d7])"
  by (simp add: clip_defs)

text \<open>
  Claim C10, at the input where the code departs from it: the triangle
  \<open>(0,0), (11,5), (0,10)\<close> clipped against left -5, right 10, top -5, bottom 15
  returns 4, and the second and third vertex of the output are both \<open>(10,5)\<close>: the two
  edges at the vertex \<open>(11,5)\<close> meet the right bound at the same truncated point.
\<close>

theorem C10_duplicate_vertex_run:
  "TwoAxisPolygonClip [\<lparr>x = 0, y = 0\<rparr>, \<lparr>x = 11, y = 5\<rparr>, \<lparr>x = 0, y = 10\<rparr>] 3
     \<lparr>clipLeft = - 5, clipRight = 10, clipBottom = 15, clipTop = - 5\<rparr>
     [c0, c1, c2, c3, c4, c5] [d0, d1, d2, d3, d4, d5]
   = Inr (4,
       [\<lparr>x = 0, y = 0\<rparr>, \<lparr>x = 0, y = 10\<rparr>, \<lparr>x = 10, y = 5\<rparr>, \<lparr>x = 10, y = 5\<rparr>, c4, c5],
       [\<lparr>x = 0, y = 0\<rparr>, \<lparr>x = 10, y = 5\<rparr>, \<lparr>x = 10, y = 5\<rparr>, \<lparr>x = 0, y = 10\<rparr>, d4, d5])"
  by (simp add: clip_defs)

section \<open>Results as values\<close>

lemma ebind_Inl [simp]: "ebind (Inl e) f = Inl e"
  and ebind_Inr [simp]: "ebind (Inr v) f = f v"
  by (simp_all add: ebind_def)

lemma ebind_eq_Inr: "ebind m f = Inr r \<longleftrightarrow> (\<exists>v. m = Inr v \<and> f v = Inr r)"
  by (cases m) simp_all

lemma ebind_eq_Inl: "ebind m f = Inl e \<longleftrightarrow> m = Inl e \<or> (\<exists>v. m = Inr v \<and> f v = Inl e)"
  by (cases m) simp_all

section \<open>The early return\<close>

text \<open>
  Claim C7: when the X pass ends with a count below 3, the call returns that count with
  the scratch buffer as the X pass left it, and the output buffer is the one the caller
  passed, unchanged: the Y pass does not run.
\<close>

theorem C7_early_return:
  assumes "xpass sourcePolygon nVertices clipRectangle clipBuffer = Inr (pIndex, clipBuffer')"
    and "sint pIndex < 3"
  shows "TwoAxisPolygonClip sourcePolygon nVertices clipRectangle clipBuffer clippedPolygon
         = Inr (pIndex, clipBuffer', clippedPolygon)"
  using assms by (simp add: TwoAxisPolygonClip_def)

theorem C7_early_return_witness:
  "xpass [\<lparr>x = 0, y = 0\<rparr>, \<lparr>x = 50, y = 0\<rparr>, \<lparr>x = 25, y = 50\<rparr>] 3
     \<lparr>clipLeft = 100, clipRight = 200, clipBottom = 100, clipTop = 0\<rparr>
     (replicate 6 \<lparr>x = 7, y = 7\<rparr>) = Inr (0, replicate 6 \<lparr>x = 7, y = 7\<rparr>)
   \<and> sint (0 :: int16_t) < 3
   \<and> TwoAxisPolygonClip [\<lparr>x = 0, y = 0\<rparr>, \<lparr>x = 50, y = 0\<rparr>, \<lparr>x = 25, y = 50\<rparr>] 3
     \<lparr>clipLeft = 100, clipRight = 200, clipBottom = 100, clipTop = 0\<rparr>
     (replicate 6 \<lparr>x = 7, y = 7\<rparr>) (replicate 6 \<lparr>x = 9, y = 9\<rparr>)
     = Inr (0, replicate 6 \<lparr>x = 7, y = 7\<rparr>, replicate 6 \<lparr>x = 9, y = 9\<rparr>)"
proof -
  have h: "xpass [\<lparr>x = 0, y = 0\<rparr>, \<lparr>x = 50, y = 0\<rparr>, \<lparr>x = 25, y = 50\<rparr>] 3
     \<lparr>clipLeft = 100, clipRight = 200, clipBottom = 100, clipTop = 0\<rparr>
     (replicate 6 \<lparr>x = 7, y = 7\<rparr>) = Inr (0, replicate 6 \<lparr>x = 7, y = 7\<rparr>)"
    by (simp add: clip_defs)
  have c: "sint (0 :: int16_t) < 3" by simp
  show ?thesis using h c C7_early_return [OF h c, of "replicate 6 \<lparr>x = 9, y = 9\<rparr>"] by simp
qed

section \<open>The start of the next edge\<close>

text \<open>
  Claim C9, as the code has it: after every iteration of either loop, whether the
  edge was rejected by the bounds test or not, the starting point of the next edge is the
  vertex that the iteration read from the pass's input array: the end point of the edge
  as it was before clipping.
\<close>

theorem C9_next_start_unclipped:
  "(xstep sourcePolygon nVertices clip_left clip_right rx1 ry1 pIndex clipBuffer
      = Inr (nx, ny, pIndex', clipBuffer')
    \<longrightarrow> rd sourcePolygon nVertices = Inr \<lparr>x = nx, y = ny\<rparr>)
   \<and> (ystep clipBuffer nVertices clip_top clip_bottom rx1 ry1 pIndex clippedPolygon
      = Inr (nx, ny, pIndex', clippedPolygon')
    \<longrightarrow> rd clipBuffer nVertices = Inr \<lparr>x = nx, y = ny\<rparr>)"
  by (auto simp: xstep_def ystep_def ebind_eq_Inr Let_def)

theorem C9_next_start_unclipped_witness:
  "xstep [\<lparr>x = 11, y = 5\<rparr>] 0 (- 5) 10 0 10 0 [\<lparr>x = 0, y = 0\<rparr>, \<lparr>x = 0, y = 0\<rparr>]
     = Inr (11, 5, 2, [\<lparr>x = 0, y = 10\<rparr>, \<lparr>x = 10, y = 5\<rparr>])
   \<and> rd [\<lparr>x = 11, y = 5\<rparr>] 0 = Inr \<lparr>x = 11, y = 5\<rparr>
   \<and> ystep [\<lparr>x = 5, y = 11\<rparr>] 0 (- 5) 10 10 0 0 [\<lparr>x = 0, y = 0\<rparr>, \<lparr>x = 0, y = 0\<rparr>]
     = Inr (5, 11, 2, [\<lparr>x = 10, y = 0\<rparr>, \<lparr>x = 5, y = 10\<rparr>])
   \<and> rd [\<lparr>x = 5, y = 11\<rparr>] 0 = Inr \<lparr>x = 5, y = 11\<rparr>"
  using
    C9_next_start_unclipped [of "[\<lparr>x = 11, y = 5\<rparr>]" 0 "- 5" 10 0 10 0
      "[\<lparr>x = 0, y = 0\<rparr>, \<lparr>x = 0, y = 0\<rparr>]" 11 5 2 "[\<lparr>x = 0, y = 10\<rparr>, \<lparr>x = 10, y = 5\<rparr>]"]
  by (simp add: clip_defs)

text \<open>
  Claim C9 as it is stated fails on this edge: from \<open>(0,10)\<close> to \<open>(11,5)\<close> with the right
  bound 10, the edge is not rejected (two vertices are stored), the end point as clipped
  is \<open>(10,5)\<close>, and the next edge starts at \<open>(11,5)\<close>.
\<close>

theorem C9_next_start_counterexample:
  "xstep [\<lparr>x = 11, y = 5\<rparr>] 0 (- 5) 10 0 10 0 [\<lparr>x = 0, y = 0\<rparr>, \<lparr>x = 0, y = 0\<rparr>]
     = Inr (11, 5, 2, [\<lparr>x = 0, y = 10\<rparr>, \<lparr>x = 10, y = 5\<rparr>])
   \<and> (11 :: int16_t, 5 :: int16_t) \<noteq> (10, 5)"
  by (simp add: clip_defs)

section \<open>No division by zero\<close>

lemma interpolate_div0: "interpolate a b c p q = Inl DivideByZero \<longleftrightarrow> sint q = sint p"
  by (simp add: interpolate_def Let_def)

lemma wr_not_div0: "wr buf i a b \<noteq> Inl DivideByZero"
  by (simp add: wr_def)

lemma rd_not_div0: "rd buf i \<noteq> Inl DivideByZero"
  by (simp add: rd_def)

lemma xedge_no_div0:
  "sint l \<le> sint r \<Longrightarrow> xedge l r pIndex buf rx1 ry1 rx2 ry2 \<noteq> Inl DivideByZero"
  by (auto simp: xedge_def ebind_eq_Inl ebind_eq_Inr interpolate_div0 wr_not_div0 Let_def)

lemma yedge_no_div0:
  "sint t \<le> sint b \<Longrightarrow> yedge t b pIndex buf rx1 ry1 rx2 ry2 \<noteq> Inl DivideByZero"
  by (auto simp: yedge_def ebind_eq_Inl ebind_eq_Inr interpolate_div0 wr_not_div0 Let_def)

lemma xstep_no_div0:
  "sint l \<le> sint r \<Longrightarrow> xstep src n l r rx1 ry1 pIndex buf \<noteq> Inl DivideByZero"
  by (auto simp: xstep_def ebind_eq_Inl rd_not_div0 xedge_no_div0 Let_def)

lemma ystep_no_div0:
  "sint t \<le> sint b \<Longrightarrow> ystep src n t b rx1 ry1 pIndex buf \<noteq> Inl DivideByZero"
  by (auto simp: ystep_def ebind_eq_Inl rd_not_div0 yedge_no_div0 Let_def)

lemma xloop_no_div0:
  "sint l \<le> sint r \<Longrightarrow> xloop src n l r rx1 ry1 pIndex buf \<noteq> Inl DivideByZero"
proof (induction src n l r rx1 ry1 pIndex buf rule: xloop.induct)
  case (1 src n l r rx1 ry1 pIndex buf)
  show ?case
  proof (cases "n = 0")
    case True
    then show ?thesis by (simp add: xloop.simps)
  next
    case False
    show ?thesis
    proof (cases "xstep src (n - 1) l r rx1 ry1 pIndex buf")
      case (Inl e)
      with False xstep_no_div0 [OF "1.prems", of src "n - 1" rx1 ry1 pIndex buf]
      show ?thesis by (simp add: xloop.simps [of src n])
    next
      case (Inr st)
      obtain a b i buf' where st: "st = (a, b, i, buf')" by (cases st) auto
      from "1.IH" [OF False Inr [unfolded st] refl refl refl "1.prems"] False Inr st
      show ?thesis by (simp add: xloop.simps [of src n])
    qed
  qed
qed

lemma yloop_no_div0:
  "sint t \<le> sint b \<Longrightarrow> yloop src n t b rx1 ry1 pIndex buf \<noteq> Inl DivideByZero"
proof (induction src n t b rx1 ry1 pIndex buf rule: yloop.induct)
  case (1 src n t b rx1 ry1 pIndex buf)
  show ?case
  proof (cases "n = 0")
    case True
    then show ?thesis by (simp add: yloop.simps)
  next
    case False
    show ?thesis
    proof (cases "ystep src (n - 1) t b rx1 ry1 pIndex buf")
      case (Inl e)
      with False ystep_no_div0 [OF "1.prems", of src "n - 1" rx1 ry1 pIndex buf]
      show ?thesis by (simp add: yloop.simps [of src n])
    next
      case (Inr st)
      obtain a c i buf' where st: "st = (a, c, i, buf')" by (cases st) auto
      from "1.IH" [OF False Inr [unfolded st] refl refl refl "1.prems"] False Inr st
      show ?thesis by (simp add: yloop.simps [of src n])
    qed
  qed
qed

lemma xpass_no_div0:
  "sint (clipLeft r) \<le> sint (clipRight r) \<Longrightarrow> xpass src n r buf \<noteq> Inl DivideByZero"
  by (auto simp: xpass_def ebind_eq_Inl rd_not_div0 xloop_no_div0)

lemma ypass_no_div0:
  "sint (clipTop r) \<le> sint (clipBottom r) \<Longrightarrow> ypass src n r buf \<noteq> Inl DivideByZero"
  by (auto simp: ypass_def ebind_eq_Inl rd_not_div0 yloop_no_div0)

text \<open>
  Claim C5: for a clip region with left \<open>\<le>\<close> right and top \<open>\<le>\<close> bottom, no call divides
  by zero, whatever the polygon (edges of length zero included), the count and the
  buffers: each of the eight interpolations is reached only with a divisor other than 0.
\<close>

theorem C5_no_division_by_zero:
  assumes "clipRect_ok clipRectangle"
  shows "TwoAxisPolygonClip sourcePolygon nVertices clipRectangle clipBuffer clippedPolygon
         \<noteq> Inl DivideByZero"
  using assms
  by (auto simp: TwoAxisPolygonClip_def clipRect_ok_def ebind_eq_Inl xpass_no_div0 ypass_no_div0)

theorem C5_no_division_by_zero_witness:
  "clipRect_ok \<lparr>clipLeft = 5, clipRight = 5, clipBottom = 7, clipTop = 7\<rparr>
   \<and> TwoAxisPolygonClip [\<lparr>x = 0, y = 0\<rparr>, \<lparr>x = 0, y = 0\<rparr>, \<lparr>x = 10, y = 10\<rparr>, \<lparr>x = 5, y = 5\<rparr>] 4
       \<lparr>clipLeft = 5, clipRight = 5, clipBottom = 7, clipTop = 7\<rparr>
       (replicate 8 \<lparr>x = 0, y = 0\<rparr>) (replicate 8 \<lparr>x = 0, y = 0\<rparr>) \<noteq> Inl DivideByZero"
proof -
  have h: "clipRect_ok \<lparr>clipLeft = 5, clipRight = 5, clipBottom = 7, clipTop = 7\<rparr>"
    by (simp add: clipRect_ok_def)
  show ?thesis using h C5_no_division_by_zero [OF h] by simp
qed

text \<open>
  The invariant of the region is needed: with left 10 and right 0, the edge from
  \<open>(20,0)\<close> to \<open>(0,0)\<close> is clipped to the right bound first, and the second
  interpolation divides by \<open>0 - 0\<close>.
\<close>

lemma inverted_region_divides_by_zero:
  "xedge 10 0 0 [\<lparr>x = 0, y = 0\<rparr>, \<lparr>x = 0, y = 0\<rparr>] 20 0 0 0 = Inl DivideByZero"
  by (simp add: clip_defs)

section \<open>Edges that cross one bound\<close>

text \<open>
  Where an edge crosses one bound of the axis only, with its other end point between the
  bounds, both directions of traversal evaluate the same interpolation, anchored at the
  end point outside: the boundary vertex is the same. An edge that crosses both bounds
  is interpolated a second time from its clipped start, which depends on the direction.
\<close>

lemma xedge_single_crossing_left:
  assumes "sint ax < sint l" and "sint l \<le> sint bx" and "sint bx \<le> sint r"
  shows "xedge l r i buf ax ay bx by
         = ebind (interpolate ay by l ax bx) (\<lambda>c.
           ebind (wr buf i l c) (\<lambda>buf. Inr (i + 1, buf)))"
    and "xedge l r i buf bx by ax ay
         = ebind (wr buf i bx by) (\<lambda>buf.
           ebind (interpolate ay by l ax bx) (\<lambda>c.
           ebind (wr buf (i + 1) l c) (\<lambda>buf. Inr (i + 1 + 1, buf))))"
  using assms by (auto simp: xedge_def Let_def ebind_def split: sum.splits)

lemma xedge_single_crossing_right:
  assumes "sint r < sint ax" and "sint bx \<le> sint r" and "sint l \<le> sint bx"
  shows "xedge l r i buf ax ay bx by
         = ebind (interpolate ay by r ax bx) (\<lambda>c.
           ebind (wr buf i r c) (\<lambda>buf. Inr (i + 1, buf)))"
    and "xedge l r i buf bx by ax ay
         = ebind (wr buf i bx by) (\<lambda>buf.
           ebind (interpolate ay by r ax bx) (\<lambda>c.
           ebind (wr buf (i + 1) r c) (\<lambda>buf. Inr (i + 1 + 1, buf))))"
  using assms by (auto simp: xedge_def Let_def ebind_def split: sum.splits)

section \<open>Polygons inside the region\<close>

text \<open>Counts and indices up to 32767 are read back from a 16-bit word unchanged.\<close>

lemma vertex_eta [simp]: "\<lparr>x = x p, y = y p\<rparr> = (p :: vertex)"
  by (cases p) simp

lemma sint_of_nat_16: "k \<le> 32767 \<Longrightarrow> sint (of_nat k :: int16_t) = int k"
proof -
  assume k: "k \<le> 32767"
  have "sint (of_nat k :: int16_t) = signed_take_bit 15 (int k)"
    by (simp add: signed_of_nat)
  also have "\<dots> = int k"
    using k by (intro signed_take_bit_int_eq_self) simp_all
  finally show ?thesis .
qed

lemma of_nat_sint_16: "sint (w :: int16_t) = int k \<Longrightarrow> w = of_nat k \<and> k \<le> 32767"
proof -
  assume h: "sint w = int k"
  have "word_of_int (sint w) = w" by simp
  with h have "w = of_nat k" by simp
  moreover have "sint w < 2 ^ (LENGTH(16) - 1)" by (rule sint_lt)
  with h have "k \<le> 32767" by simp
  ultimately show ?thesis by simp
qed

lemma rd_of_nat: "k < length buf \<Longrightarrow> k \<le> 32767 \<Longrightarrow> rd buf (of_nat k) = Inr (buf ! k)"
  by (simp add: rd_def sint_of_nat_16)

lemma wr_of_nat:
  "j < length buf \<Longrightarrow> j \<le> 32767 \<Longrightarrow> wr buf (of_nat j) a b = Inr (buf[j := \<lparr>x = a, y = b\<rparr>])"
  by (simp add: wr_def sint_of_nat_16)

lemma of_nat_Suc_neq_0_16: "Suc k \<le> 32767 \<Longrightarrow> (of_nat (Suc k) :: int16_t) \<noteq> 0"
proof
  assume k: "Suc k \<le> 32767" and z: "(of_nat (Suc k) :: int16_t) = 0"
  from sint_of_nat_16 [OF k] z show False by simp
qed

text \<open>
  An edge between two points within the bounds of the axis stores its starting point and
  nothing else. A pass over such points stores the first point and then the others from
  the last to the second: two passes restore the order of the source.
\<close>

lemma xedge_inside:
  "sint l \<le> sint rx1 \<Longrightarrow> sint rx1 \<le> sint r \<Longrightarrow> sint l \<le> sint rx2 \<Longrightarrow> sint rx2 \<le> sint r \<Longrightarrow>
   xedge l r pIndex buf rx1 ry1 rx2 ry2 = ebind (wr buf pIndex rx1 ry1) (\<lambda>buf. Inr (pIndex + 1, buf))"
  by (auto simp: xedge_def Let_def)

lemma yedge_inside:
  "sint t \<le> sint ry1 \<Longrightarrow> sint ry1 \<le> sint b \<Longrightarrow> sint t \<le> sint ry2 \<Longrightarrow> sint ry2 \<le> sint b \<Longrightarrow>
   yedge t b pIndex buf rx1 ry1 rx2 ry2 = ebind (wr buf pIndex rx1 ry1) (\<lambda>buf. Inr (pIndex + 1, buf))"
  by (auto simp: yedge_def Let_def)

lemma xloop_inside:
  assumes "k \<le> length src" and "j + k \<le> length buf" and "j + k \<le> 32767"
    and "\<forall>i<k. sint l \<le> sint (x (src ! i)) \<and> sint (x (src ! i)) \<le> sint r"
    and "sint l \<le> sint (x p) \<and> sint (x p) \<le> sint r"
  shows "xloop src (of_nat k) l r (x p) (y p) (of_nat j) buf
         = Inr (of_nat (j + k), take j buf @ butlast (p # rev (take k src)) @ drop (j + k) buf)"
  using assms
proof (induction k arbitrary: p j buf)
  case 0
  then show ?case by (simp add: xloop.simps)
next
  case (Suc k)
  let ?v = "src ! k"
  have k: "k < length src" "k \<le> 32767" "j < length buf" "j \<le> 32767" using Suc.prems by auto
  have inv: "sint l \<le> sint (x ?v) \<and> sint (x ?v) \<le> sint r" using Suc.prems by auto
  have step: "xstep src (of_nat k) l r (x p) (y p) (of_nat j) buf
              = Inr (x ?v, y ?v, of_nat (Suc j), buf[j := p])"
    using k inv Suc.prems(5) by (simp add: xstep_def rd_of_nat xedge_inside wr_of_nat Let_def)
  have ih: "xloop src (of_nat k) l r (x ?v) (y ?v) (of_nat (Suc j)) (buf[j := p])
        = Inr (of_nat (Suc j + k),
            take (Suc j) (buf[j := p]) @ butlast (?v # rev (take k src)) @ drop (Suc j + k) (buf[j := p]))"
    using Suc.prems inv by (intro Suc.IH) auto
  have nz: "(of_nat (Suc k) :: int16_t) \<noteq> 0"
    using Suc.prems by (intro of_nat_Suc_neq_0_16) simp
  have lists: "take (Suc j) (buf[j := p]) @ butlast (?v # rev (take k src)) @ drop (Suc j + k) (buf[j := p])
      = take j buf @ butlast (p # rev (take (Suc k) src)) @ drop (j + Suc k) buf"
    using k by (simp add: take_Suc_conv_app_nth)
  have "xloop src (of_nat (Suc k)) l r (x p) (y p) (of_nat j) buf
      = xloop src (of_nat k) l r (x ?v) (y ?v) (of_nat (Suc j)) (buf[j := p])"
    using nz step by (subst xloop.simps) simp
  with ih lists show ?case by simp
qed


lemma yloop_inside:
  assumes "k \<le> length src" and "j + k \<le> length buf" and "j + k \<le> 32767"
    and "\<forall>i<k. sint t \<le> sint (y (src ! i)) \<and> sint (y (src ! i)) \<le> sint b"
    and "sint t \<le> sint (y p) \<and> sint (y p) \<le> sint b"
  shows "yloop src (of_nat k) t b (x p) (y p) (of_nat j) buf
         = Inr (of_nat (j + k), take j buf @ butlast (p # rev (take k src)) @ drop (j + k) buf)"
  using assms
proof (induction k arbitrary: p j buf)
  case 0
  then show ?case by (simp add: yloop.simps)
next
  case (Suc k)
  let ?v = "src ! k"
  have k: "k < length src" "k \<le> 32767" "j < length buf" "j \<le> 32767" using Suc.prems by auto
  have inv: "sint t \<le> sint (y ?v) \<and> sint (y ?v) \<le> sint b" using Suc.prems by auto
  have step: "ystep src (of_nat k) t b (x p) (y p) (of_nat j) buf
              = Inr (x ?v, y ?v, of_nat (Suc j), buf[j := p])"
    using k inv Suc.prems(5) by (simp add: ystep_def rd_of_nat yedge_inside wr_of_nat Let_def)
  have ih: "yloop src (of_nat k) t b (x ?v) (y ?v) (of_nat (Suc j)) (buf[j := p])
        = Inr (of_nat (Suc j + k),
            take (Suc j) (buf[j := p]) @ butlast (?v # rev (take k src)) @ drop (Suc j + k) (buf[j := p]))"
    using Suc.prems inv by (intro Suc.IH) auto
  have nz: "(of_nat (Suc k) :: int16_t) \<noteq> 0"
    using Suc.prems by (intro of_nat_Suc_neq_0_16) simp
  have lists: "take (Suc j) (buf[j := p]) @ butlast (?v # rev (take k src)) @ drop (Suc j + k) (buf[j := p])
      = take j buf @ butlast (p # rev (take (Suc k) src)) @ drop (j + Suc k) buf"
    using k by (simp add: take_Suc_conv_app_nth)
  have "yloop src (of_nat (Suc k)) t b (x p) (y p) (of_nat j) buf
      = yloop src (of_nat k) t b (x ?v) (y ?v) (of_nat (Suc j)) (buf[j := p])"
    using nz step by (subst yloop.simps) simp
  with ih lists show ?case by simp
qed

lemma rd_0: "buf \<noteq> [] \<Longrightarrow> rd buf 0 = Inr (hd buf)"
  by (cases buf) (simp_all add: rd_def)

lemma xpass_inside:
  assumes n: "sint nVertices = int (length src)" and ne: "src \<noteq> []"
    and ins: "\<forall>v\<in>set src. sint (clipLeft r) \<le> sint (x v) \<and> sint (x v) \<le> sint (clipRight r)"
    and cb: "length src \<le> length cb"
  shows "xpass src nVertices r cb = Inr (nVertices, (hd src # rev (tl src)) @ drop (length src) cb)"
proof -
  from of_nat_sint_16 [OF n] have nv: "nVertices = of_nat (length src)" and le: "length src \<le> 32767"
    by simp_all
  obtain v0 vs where src: "src = v0 # vs" using ne by (cases src) auto
  have "xloop src (of_nat (length src)) (clipLeft r) (clipRight r) (x v0) (y v0) (of_nat 0) cb
      = Inr (of_nat (0 + length src),
          take 0 cb @ butlast (v0 # rev (take (length src) src)) @ drop (0 + length src) cb)"
  proof (intro xloop_inside)
    show "\<forall>i<length src. sint (clipLeft r) \<le> sint (x (src ! i)) \<and> sint (x (src ! i)) \<le> sint (clipRight r)"
      using ins nth_mem by blast
  qed (use le cb ins src in auto)
  then show ?thesis
    using ne by (simp add: xpass_def rd_0 nv src)
qed

lemma ypass_inside:
  assumes n: "sint nVertices = int (length src)" and ne: "src \<noteq> []"
    and ins: "\<forall>v\<in>set src. sint (clipTop r) \<le> sint (y v) \<and> sint (y v) \<le> sint (clipBottom r)"
    and cp: "length src \<le> length cp"
  shows "ypass (src @ rest) nVertices r cp
         = Inr (nVertices, (hd src # rev (tl src)) @ drop (length src) cp)"
proof -
  from of_nat_sint_16 [OF n] have nv: "nVertices = of_nat (length src)" and le: "length src \<le> 32767"
    by simp_all
  obtain v0 vs where src: "src = v0 # vs" using ne by (cases src) auto
  have "yloop (src @ rest) (of_nat (length src)) (clipTop r) (clipBottom r) (x v0) (y v0) (of_nat 0) cp
      = Inr (of_nat (0 + length src),
          take 0 cp @ butlast (v0 # rev (take (length src) (src @ rest))) @ drop (0 + length src) cp)"
  proof (intro yloop_inside)
    show "\<forall>i<length src. sint (clipTop r) \<le> sint (y ((src @ rest) ! i))
        \<and> sint (y ((src @ rest) ! i)) \<le> sint (clipBottom r)"
      using ins nth_mem by (fastforce simp: nth_append)
  qed (use le cp ins src in auto)
  then show ?thesis
    by (simp add: ypass_def rd_0 nv src)
qed

lemma clip_inside:
  assumes n: "sint nVertices = int (length src)" and three: "3 \<le> length src"
    and ins: "\<forall>v\<in>set src. inside r v"
    and cb: "length src \<le> length cb" and cp: "length src \<le> length cp"
  shows "TwoAxisPolygonClip src nVertices r cb cp
         = Inr (nVertices, (hd src # rev (tl src)) @ drop (length src) cb,
                src @ drop (length src) cp)"
proof -
  have ne: "src \<noteq> []" using three by auto
  let ?e = "hd src # rev (tl src)"
  have len: "length ?e = length src" using ne by (cases src) auto
  have set_e: "set ?e = set src" using ne by (cases src) auto
  have xp: "xpass src nVertices r cb = Inr (nVertices, ?e @ drop (length src) cb)"
    using n ne ins cb by (intro xpass_inside) (auto simp: inside_def)
  have yp: "ypass (?e @ drop (length src) cb) nVertices r cp
         = Inr (nVertices, (hd ?e # rev (tl ?e)) @ drop (length ?e) cp)"
    using n ins cp len set_e by (intro ypass_inside) (auto simp: inside_def)
  have again: "hd ?e # rev (tl ?e) = src" using ne by (cases src) auto
  have "\<not> sint nVertices < 3" using n three by simp
  with xp yp again len show ?thesis
    by (simp add: TwoAxisPolygonClip_def)
qed


text \<open>
  Claim C2: a polygon of at least three vertices, all inside the clip region, given with
  its vertex count and buffers that hold at least that many entries, is returned with
  the same count, and the first entries of the output buffer are the source vertices in
  the source's order; the rest of the output buffer is left as it was.
\<close>

theorem C2_inside_unchanged:
  assumes "sint nVertices = int (length sourcePolygon)" and "3 \<le> length sourcePolygon"
    and "\<forall>v\<in>set sourcePolygon. inside clipRectangle v"
    and "length sourcePolygon \<le> length clipBuffer"
    and "length sourcePolygon \<le> length clippedPolygon"
  shows "\<exists>clipBuffer' clippedPolygon'.
           TwoAxisPolygonClip sourcePolygon nVertices clipRectangle clipBuffer clippedPolygon
             = Inr (nVertices, clipBuffer', clippedPolygon')
           \<and> take (length sourcePolygon) clippedPolygon' = sourcePolygon
           \<and> drop (length sourcePolygon) clippedPolygon' = drop (length sourcePolygon) clippedPolygon"
  using clip_inside [OF assms] by simp

theorem C2_inside_unchanged_witness:
  "sint (3 :: int16_t) = int (length [\<lparr>x = 1, y = 1\<rparr>, \<lparr>x = 9, y = 2\<rparr>, \<lparr>x = 4, y = (8 :: int16_t)\<rparr>])
   \<and> 3 \<le> length [\<lparr>x = 1, y = 1\<rparr>, \<lparr>x = 9, y = 2\<rparr>, \<lparr>x = 4, y = (8 :: int16_t)\<rparr>]
   \<and> inside \<lparr>clipLeft = 0, clipRight = 10, clipBottom = 10, clipTop = 0\<rparr> \<lparr>x = 1, y = 1\<rparr>
   \<and> inside \<lparr>clipLeft = 0, clipRight = 10, clipBottom = 10, clipTop = 0\<rparr> \<lparr>x = 9, y = 2\<rparr>
   \<and> inside \<lparr>clipLeft = 0, clipRight = 10, clipBottom = 10, clipTop = 0\<rparr> \<lparr>x = 4, y = 8\<rparr>
   \<and> (\<exists>clipBuffer' clippedPolygon'.
         TwoAxisPolygonClip [\<lparr>x = 1, y = 1\<rparr>, \<lparr>x = 9, y = 2\<rparr>, \<lparr>x = 4, y = 8\<rparr>] 3
           \<lparr>clipLeft = 0, clipRight = 10, clipBottom = 10, clipTop = 0\<rparr>
           (replicate 6 \<lparr>x = 0, y = 0\<rparr>) (replicate 6 \<lparr>x = 0, y = 0\<rparr>)
           = Inr (3, clipBuffer', clippedPolygon')
         \<and> take (length [\<lparr>x = 1, y = 1\<rparr>, \<lparr>x = 9, y = 2\<rparr>, \<lparr>x = 4, y = (8 :: int16_t)\<rparr>])
               clippedPolygon'
             = [\<lparr>x = 1, y = 1\<rparr>, \<lparr>x = 9, y = 2\<rparr>, \<lparr>x = 4, y = 8\<rparr>]
         \<and> drop (length [\<lparr>x = 1, y = 1\<rparr>, \<lparr>x = 9, y = 2\<rparr>, \<lparr>x = 4, y = (8 :: int16_t)\<rparr>])
               clippedPolygon'
             = drop (length [\<lparr>x = 1, y = 1\<rparr>, \<lparr>x = 9, y = 2\<rparr>, \<lparr>x = 4, y = (8 :: int16_t)\<rparr>])
                 (replicate 6 \<lparr>x = 0, y = 0\<rparr>))"
proof -
  let ?src = "[\<lparr>x = 1, y = 1\<rparr>, \<lparr>x = 9, y = 2\<rparr>, \<lparr>x = 4, y = (8 :: int16_t)\<rparr>]"
  let ?r = "\<lparr>clipLeft = 0, clipRight = 10, clipBottom = 10, clipTop = 0\<rparr>"
  have h1: "sint (3 :: int16_t) = int (length ?src)" by simp
  have h2: "3 \<le> length ?src" by simp
  have h3: "\<forall>v\<in>set ?src. inside ?r v" by (simp add: inside_def)
  have h4: "length ?src \<le> length (replicate 6 \<lparr>x = 0, y = (0 :: int16_t)\<rparr>)" by simp
  show ?thesis
    using h1 h2 h3 C2_inside_unchanged [OF h1 h2 h3 h4 h4] by (simp add: inside_def)
qed

section \<open>Interpolated values lie between the end points\<close>

text \<open>
  For \<open>T\<close> between 0 and \<open>L\<close>, the truncated quotient of \<open>D * T\<close> by \<open>L\<close> has the
  sign of \<open>D\<close> and at most its magnitude: an interpolation whose bound lies between the
  end points of the edge yields a value between theirs, which fits 16 bits.
\<close>

lemma sdiv_scaled:
  fixes D T L :: int
  assumes "(0 \<le> T \<and> T \<le> L) \<or> (L \<le> T \<and> T \<le> 0)" and "L \<noteq> 0"
  shows "\<exists>m. (D * T) sdiv L = sgn D * m \<and> 0 \<le> m \<and> m \<le> \<bar>D\<bar>"
proof (cases "T = 0")
  case True
  then show ?thesis by (intro exI [of _ 0]) simp
next
  case False
  let ?m = "(\<bar>D\<bar> * \<bar>T\<bar>) div \<bar>L\<bar>"
  have sg: "sgn T * sgn L = 1" using assms False by (auto simp: sgn_if)
  have TL: "\<bar>T\<bar> \<le> \<bar>L\<bar>" using assms by auto
  have "\<bar>D\<bar> * \<bar>T\<bar> \<le> \<bar>D\<bar> * \<bar>L\<bar>" using TL by (intro mult_left_mono) simp_all
  then have "?m \<le> (\<bar>D\<bar> * \<bar>L\<bar>) div \<bar>L\<bar>" by (intro zdiv_mono1) (use assms in auto)
  then have up: "?m \<le> \<bar>D\<bar>" using assms by simp
  have lo: "0 \<le> ?m" by (intro pos_imp_zdiv_nonneg_iff [THEN iffD2]) (use assms in auto)
  have "(D * T) sdiv L = sgn D * (sgn T * sgn L) * ?m"
    by (simp add: signed_divide_int_def sgn_mult abs_mult ac_simps)
  with sg have "(D * T) sdiv L = sgn D * ?m" by simp
  with lo up show ?thesis by blast
qed

lemma lerp_between:
  fixes A B T L :: int
  assumes "(0 \<le> T \<and> T \<le> L) \<or> (L \<le> T \<and> T \<le> 0)" and "L \<noteq> 0"
  shows "min A B \<le> A + ((B - A) * T) sdiv L \<and> A + ((B - A) * T) sdiv L \<le> max A B"
proof -
  from sdiv_scaled [OF assms, of "B - A"] obtain m
    where m: "((B - A) * T) sdiv L = sgn (B - A) * m" "0 \<le> m" "m \<le> \<bar>B - A\<bar>" by blast
  show ?thesis unfolding m(1) using m(2,3) by (auto simp: sgn_if min_def max_def split: if_splits)
qed

lemma sint_word_of_int_16: "- 32768 \<le> k \<Longrightarrow> k \<le> 32767 \<Longrightarrow> sint (word_of_int k :: int16_t) = k"
proof -
  assume k: "- 32768 \<le> k" "k \<le> 32767"
  have "sint (word_of_int k :: int16_t) = signed_take_bit 15 k"
    by (simp add: signed_of_int)
  also have "\<dots> = k"
    using k by (intro signed_take_bit_int_eq_self) simp_all
  finally show ?thesis .
qed

lemma sint_16_range: "- 32768 \<le> sint (w :: int16_t) \<and> sint w \<le> 32767"
  using sint_ge [of w] sint_lt [of w] by simp

lemma interpolate_between:
  assumes "interpolate a b c p q = Inr v"
    and "(sint p \<le> sint c \<and> sint c \<le> sint q) \<or> (sint q \<le> sint c \<and> sint c \<le> sint p)"
  shows "min (sint a) (sint b) \<le> sint v \<and> sint v \<le> max (sint a) (sint b)"
proof -
  let ?s = "sint a + ((sint b - sint a) * (sint c - sint p)) sdiv (sint q - sint p)"
  from assms(1) have ne: "sint q - sint p \<noteq> 0" and v: "v = word_of_int ?s"
    by (auto simp: interpolate_def Let_def split: if_splits)
  have rng: "(0 \<le> sint c - sint p \<and> sint c - sint p \<le> sint q - sint p)
      \<or> (sint q - sint p \<le> sint c - sint p \<and> sint c - sint p \<le> 0)"
    using assms(2) by auto
  from lerp_between [OF rng ne, of "sint a" "sint b"]
  have b: "min (sint a) (sint b) \<le> ?s" "?s \<le> max (sint a) (sint b)" by simp_all
  have "- 32768 \<le> ?s" "?s \<le> 32767"
    using b sint_16_range [of a] sint_16_range [of b] by (auto simp: min_def max_def split: if_splits)
  then have "sint v = ?s" unfolding v by (rule sint_word_of_int_16)
  with b show ?thesis by simp
qed

section \<open>What a pass stores\<close>

text \<open>
  The invariant of a pass: the entries of its output buffer below \<open>pIndex\<close> exist and lie
  in a box. \<open>pIndex++\<close> is addition on 16-bit words; past 32767 it wraps to a negative
  index, below which the invariant says nothing.
\<close>

lemma sint_succ_le: "sint ((i :: int16_t) + 1) \<le> sint i + 1"
proof (cases "sint i = 32767")
  case True
  then have "word_of_int (sint i) = (word_of_int 32767 :: int16_t)" by simp
  then have "i = 32767" by simp
  then show ?thesis by simp
next
  case False
  with sint_16_range [of i] have "- 32768 \<le> sint i + 1" "sint i + 1 \<le> 32767" by auto
  then have "sint (word_of_int (sint i + 1) :: int16_t) = sint i + 1"
    by (rule sint_word_of_int_16)
  then show ?thesis by simp
qed

lemma wr_length: "wr buf i a b = Inr buf' \<Longrightarrow> length buf' = length buf"
  by (auto simp: wr_def split: if_splits)

lemma wr_stored:
  assumes "wr buf i a b = Inr buf'" and "stored P i buf" and "P \<lparr>x = a, y = b\<rparr>"
  shows "stored P (i + 1) buf'"
  unfolding stored_def
proof (intro allI impI)
  fix k assume k: "0 \<le> k \<and> k < sint (i + 1)"
  from assms(1) have i: "0 \<le> sint i" "nat (sint i) < length buf"
    and b: "buf' = buf[nat (sint i) := \<lparr>x = a, y = b\<rparr>]"
    by (auto simp: wr_def split: if_splits)
  from k sint_succ_le [of i] have le: "k \<le> sint i" by simp
  show "nat k < length buf' \<and> P (buf' ! nat k)"
  proof (cases "k = sint i")
    case True
    with i b assms(3) show ?thesis by simp
  next
    case False
    with le k have lt: "0 \<le> k \<and> k < sint i" by simp
    with assms(2) have "nat k < length buf \<and> P (buf ! nat k)" by (simp add: stored_def)
    moreover from lt i have "nat k \<noteq> nat (sint i)" by arith
    ultimately show ?thesis using b by simp
  qed
qed

text \<open>
  The clipped start of an edge, in the first branch (decreasing) and in the second
  (increasing): it lies on the edge, within the bound it was clipped to.
\<close>

lemma start_hi:
  assumes "(if sint a1 > sint hi then ebind (interpolate o1 o2 hi a1 a2) (\<lambda>c. Inr (hi, c))
            else Inr (a1, o1)) = Inr (sa, so)"
    and "sint a1 > sint a2" and "\<not> sint a2 > sint hi"
  shows "sint sa = min (sint a1) (sint hi) \<and> sint a2 \<le> sint sa
       \<and> min (sint o1) (sint o2) \<le> sint so \<and> sint so \<le> max (sint o1) (sint o2)"
proof (cases "sint a1 > sint hi")
  case True
  with assms(1) have i: "interpolate o1 o2 hi a1 a2 = Inr so" and sa: "sa = hi"
    by (auto simp: ebind_eq_Inr)
  from interpolate_between [OF i] assms(2,3) True sa show ?thesis by auto
next
  case False
  with assms show ?thesis by auto
qed

lemma start_lo:
  assumes "(if sint a1 < sint lo then ebind (interpolate o1 o2 lo a1 a2) (\<lambda>c. Inr (lo, c))
            else Inr (a1, o1)) = Inr (sa, so)"
    and "\<not> sint a1 > sint a2" and "\<not> sint a2 < sint lo"
  shows "sint sa = max (sint a1) (sint lo) \<and> sint sa \<le> sint a2
       \<and> min (sint o1) (sint o2) \<le> sint so \<and> sint so \<le> max (sint o1) (sint o2)"
proof (cases "sint a1 < sint lo")
  case True
  with assms(1) have i: "interpolate o1 o2 lo a1 a2 = Inr so" and sa: "sa = lo"
    by (auto simp: ebind_eq_Inr)
  from interpolate_between [OF i] assms(2,3) True sa show ?thesis by auto
next
  case False
  with assms show ?thesis by auto
qed

text \<open>
  With left \<open>\<le>\<close> right, every vertex the X pass stores has its \<open>x\<close> between the bounds
  and its \<open>y\<close> in any interval that holds the \<open>y\<close> of both end points.
\<close>

lemma xedge_inv:
  assumes e: "xedge l r pIndex buf rx1 ry1 rx2 ry2 = Inr (pI', buf')"
    and lr: "sint l \<le> sint r"
    and y1: "ylo \<le> sint ry1 \<and> sint ry1 \<le> yhi" and y2: "ylo \<le> sint ry2 \<and> sint ry2 \<le> yhi"
    and st: "stored (in_box (sint l) (sint r) ylo yhi) pIndex buf"
  shows "stored (in_box (sint l) (sint r) ylo yhi) pI' buf' \<and> length buf' = length buf"
proof -
  let ?P = "in_box (sint l) (sint r) ylo yhi"
  show ?thesis
  proof (cases "sint rx1 > sint rx2")
    case dec: True
    show ?thesis
    proof (cases "sint rx1 < sint l \<or> sint rx2 > sint r")
      case True
      with e dec st show ?thesis by (simp add: xedge_def)
    next
      case False
      from e dec False obtain sx sy buf1 where
        s: "(if sint rx1 > sint r then ebind (interpolate ry1 ry2 r rx1 rx2) (\<lambda>c. Inr (r, c))
             else Inr (rx1, ry1)) = Inr (sx, sy)"
        and w1: "wr buf pIndex sx sy = Inr buf1"
        and rest: "(if sint rx2 < sint l
             then ebind (interpolate ry2 sy l rx2 sx) (\<lambda>cy.
                  ebind (wr buf1 (pIndex + 1) l cy) (\<lambda>b. Inr (pIndex + 1 + 1, b)))
             else Inr (pIndex + 1, buf1)) = Inr (pI', buf')"
        by (auto simp: xedge_def ebind_eq_Inr Let_def)
      from False have "\<not> sint rx2 > sint r" by simp
      from start_hi [OF s dec this]
      have sx: "sint sx = min (sint rx1) (sint r)" "sint rx2 \<le> sint sx"
        and sy: "min (sint ry1) (sint ry2) \<le> sint sy" "sint sy \<le> max (sint ry1) (sint ry2)"
        by blast+
      have P1: "?P \<lparr>x = sx, y = sy\<rparr>"
        using sx sy y1 y2 False lr by (auto simp: in_box_def min_def max_def split: if_splits)
      from wr_stored [OF w1 st P1] wr_length [OF w1]
      have st1: "stored ?P (pIndex + 1) buf1" and len1: "length buf1 = length buf" by simp_all
      show ?thesis
      proof (cases "sint rx2 < sint l")
        case True
        with rest obtain cy where i2: "interpolate ry2 sy l rx2 sx = Inr cy"
          and w2: "wr buf1 (pIndex + 1) l cy = Inr buf'" and pI: "pI' = pIndex + 1 + 1"
          by (auto simp: ebind_eq_Inr)
        have "sint l \<le> sint sx" using sx False lr by (auto simp: min_def)
        with interpolate_between [OF i2] True
        have cy: "min (sint ry2) (sint sy) \<le> sint cy" "sint cy \<le> max (sint ry2) (sint sy)" by auto
        have P2: "?P \<lparr>x = l, y = cy\<rparr>"
          using cy sy y1 y2 lr by (auto simp: in_box_def min_def max_def split: if_splits)
        from wr_stored [OF w2 st1 P2] wr_length [OF w2] len1 pI show ?thesis by simp
      next
        case False
        with rest st1 len1 show ?thesis by simp
      qed
    qed
  next
    case inc: False
    show ?thesis
    proof (cases "sint rx2 < sint l \<or> sint rx1 > sint r")
      case True
      with e inc st show ?thesis by (simp add: xedge_def)
    next
      case False
      from e inc False obtain sx sy buf1 where
        s: "(if sint rx1 < sint l then ebind (interpolate ry1 ry2 l rx1 rx2) (\<lambda>c. Inr (l, c))
             else Inr (rx1, ry1)) = Inr (sx, sy)"
        and w1: "wr buf pIndex sx sy = Inr buf1"
        and rest: "(if sint rx2 > sint r
             then ebind (interpolate ry2 sy r rx2 sx) (\<lambda>cy.
                  ebind (wr buf1 (pIndex + 1) r cy) (\<lambda>b. Inr (pIndex + 1 + 1, b)))
             else Inr (pIndex + 1, buf1)) = Inr (pI', buf')"
        by (auto simp: xedge_def ebind_eq_Inr Let_def)
      from False have "\<not> sint rx2 < sint l" by simp
      from start_lo [OF s inc this]
      have sx: "sint sx = max (sint rx1) (sint l)" "sint sx \<le> sint rx2"
        and sy: "min (sint ry1) (sint ry2) \<le> sint sy" "sint sy \<le> max (sint ry1) (sint ry2)"
        by blast+
      have P1: "?P \<lparr>x = sx, y = sy\<rparr>"
        using sx sy y1 y2 False lr by (auto simp: in_box_def min_def max_def split: if_splits)
      from wr_stored [OF w1 st P1] wr_length [OF w1]
      have st1: "stored ?P (pIndex + 1) buf1" and len1: "length buf1 = length buf" by simp_all
      show ?thesis
      proof (cases "sint rx2 > sint r")
        case True
        with rest obtain cy where i2: "interpolate ry2 sy r rx2 sx = Inr cy"
          and w2: "wr buf1 (pIndex + 1) r cy = Inr buf'" and pI: "pI' = pIndex + 1 + 1"
          by (auto simp: ebind_eq_Inr)
        have "sint sx \<le> sint r" using sx False lr by (auto simp: max_def)
        with interpolate_between [OF i2] True
        have cy: "min (sint ry2) (sint sy) \<le> sint cy" "sint cy \<le> max (sint ry2) (sint sy)" by auto
        have P2: "?P \<lparr>x = r, y = cy\<rparr>"
          using cy sy y1 y2 lr by (auto simp: in_box_def min_def max_def split: if_splits)
        from wr_stored [OF w2 st1 P2] wr_length [OF w2] len1 pI show ?thesis by simp
      next
        case False
        with rest st1 len1 show ?thesis by simp
      qed
    qed
  qed
qed

text \<open>The same for the Y pass, whose interpolated coordinate is \<open>x\<close>.\<close>

lemma start_hi_y:
  assumes "(if sint a1 > sint hi then ebind (interpolate o1 o2 hi a1 a2) (\<lambda>c. Inr (c, hi))
            else Inr (o1, a1)) = Inr (so, sa)"
    and "sint a1 > sint a2" and "\<not> sint a2 > sint hi"
  shows "sint sa = min (sint a1) (sint hi) \<and> sint a2 \<le> sint sa
       \<and> min (sint o1) (sint o2) \<le> sint so \<and> sint so \<le> max (sint o1) (sint o2)"
proof (cases "sint a1 > sint hi")
  case True
  with assms(1) have i: "interpolate o1 o2 hi a1 a2 = Inr so" and sa: "sa = hi"
    by (auto simp: ebind_eq_Inr)
  from interpolate_between [OF i] assms(2,3) True sa show ?thesis by auto
next
  case False
  with assms show ?thesis by auto
qed

lemma start_lo_y:
  assumes "(if sint a1 < sint lo then ebind (interpolate o1 o2 lo a1 a2) (\<lambda>c. Inr (c, lo))
            else Inr (o1, a1)) = Inr (so, sa)"
    and "\<not> sint a1 > sint a2" and "\<not> sint a2 < sint lo"
  shows "sint sa = max (sint a1) (sint lo) \<and> sint sa \<le> sint a2
       \<and> min (sint o1) (sint o2) \<le> sint so \<and> sint so \<le> max (sint o1) (sint o2)"
proof (cases "sint a1 < sint lo")
  case True
  with assms(1) have i: "interpolate o1 o2 lo a1 a2 = Inr so" and sa: "sa = lo"
    by (auto simp: ebind_eq_Inr)
  from interpolate_between [OF i] assms(2,3) True sa show ?thesis by auto
next
  case False
  with assms show ?thesis by auto
qed

lemma yedge_inv:
  assumes e: "yedge t b pIndex buf rx1 ry1 rx2 ry2 = Inr (pI', buf')"
    and tb: "sint t \<le> sint b"
    and x1: "xlo \<le> sint rx1 \<and> sint rx1 \<le> xhi" and x2: "xlo \<le> sint rx2 \<and> sint rx2 \<le> xhi"
    and st: "stored (in_box xlo xhi (sint t) (sint b)) pIndex buf"
  shows "stored (in_box xlo xhi (sint t) (sint b)) pI' buf' \<and> length buf' = length buf"
proof -
  let ?P = "in_box xlo xhi (sint t) (sint b)"
  show ?thesis
  proof (cases "sint ry1 > sint ry2")
    case dec: True
    show ?thesis
    proof (cases "sint ry1 < sint t \<or> sint ry2 > sint b")
      case True
      with e dec st show ?thesis by (simp add: yedge_def)
    next
      case False
      from e dec False obtain sx sy buf1 where
        s: "(if sint ry1 > sint b then ebind (interpolate rx1 rx2 b ry1 ry2) (\<lambda>c. Inr (c, b))
             else Inr (rx1, ry1)) = Inr (sx, sy)"
        and w1: "wr buf pIndex sx sy = Inr buf1"
        and rest: "(if sint ry2 < sint t
             then ebind (interpolate rx2 sx t ry2 sy) (\<lambda>cx.
                  ebind (wr buf1 (pIndex + 1) cx t) (\<lambda>b. Inr (pIndex + 1 + 1, b)))
             else Inr (pIndex + 1, buf1)) = Inr (pI', buf')"
        by (auto simp: yedge_def ebind_eq_Inr Let_def)
      from False have "\<not> sint ry2 > sint b" by simp
      from start_hi_y [OF s dec this]
      have sy: "sint sy = min (sint ry1) (sint b)" "sint ry2 \<le> sint sy"
        and sx: "min (sint rx1) (sint rx2) \<le> sint sx" "sint sx \<le> max (sint rx1) (sint rx2)"
        by blast+
      have P1: "?P \<lparr>x = sx, y = sy\<rparr>"
        using sx sy x1 x2 False tb by (auto simp: in_box_def min_def max_def split: if_splits)
      from wr_stored [OF w1 st P1] wr_length [OF w1]
      have st1: "stored ?P (pIndex + 1) buf1" and len1: "length buf1 = length buf" by simp_all
      show ?thesis
      proof (cases "sint ry2 < sint t")
        case True
        with rest obtain cx where i2: "interpolate rx2 sx t ry2 sy = Inr cx"
          and w2: "wr buf1 (pIndex + 1) cx t = Inr buf'" and pI: "pI' = pIndex + 1 + 1"
          by (auto simp: ebind_eq_Inr)
        have "sint t \<le> sint sy" using sy False tb by (auto simp: min_def)
        with interpolate_between [OF i2] True
        have cx: "min (sint rx2) (sint sx) \<le> sint cx" "sint cx \<le> max (sint rx2) (sint sx)" by auto
        have P2: "?P \<lparr>x = cx, y = t\<rparr>"
          using cx sx x1 x2 tb by (auto simp: in_box_def min_def max_def split: if_splits)
        from wr_stored [OF w2 st1 P2] wr_length [OF w2] len1 pI show ?thesis by simp
      next
        case False
        with rest st1 len1 show ?thesis by simp
      qed
    qed
  next
    case inc: False
    show ?thesis
    proof (cases "sint ry2 < sint t \<or> sint ry1 > sint b")
      case True
      with e inc st show ?thesis by (simp add: yedge_def)
    next
      case False
      from e inc False obtain sx sy buf1 where
        s: "(if sint ry1 < sint t then ebind (interpolate rx1 rx2 t ry1 ry2) (\<lambda>c. Inr (c, t))
             else Inr (rx1, ry1)) = Inr (sx, sy)"
        and w1: "wr buf pIndex sx sy = Inr buf1"
        and rest: "(if sint ry2 > sint b
             then ebind (interpolate rx2 sx b ry2 sy) (\<lambda>cx.
                  ebind (wr buf1 (pIndex + 1) cx b) (\<lambda>b. Inr (pIndex + 1 + 1, b)))
             else Inr (pIndex + 1, buf1)) = Inr (pI', buf')"
        by (auto simp: yedge_def ebind_eq_Inr Let_def)
      from False have "\<not> sint ry2 < sint t" by simp
      from start_lo_y [OF s inc this]
      have sy: "sint sy = max (sint ry1) (sint t)" "sint sy \<le> sint ry2"
        and sx: "min (sint rx1) (sint rx2) \<le> sint sx" "sint sx \<le> max (sint rx1) (sint rx2)"
        by blast+
      have P1: "?P \<lparr>x = sx, y = sy\<rparr>"
        using sx sy x1 x2 False tb by (auto simp: in_box_def min_def max_def split: if_splits)
      from wr_stored [OF w1 st P1] wr_length [OF w1]
      have st1: "stored ?P (pIndex + 1) buf1" and len1: "length buf1 = length buf" by simp_all
      show ?thesis
      proof (cases "sint ry2 > sint b")
        case True
        with rest obtain cx where i2: "interpolate rx2 sx b ry2 sy = Inr cx"
          and w2: "wr buf1 (pIndex + 1) cx b = Inr buf'" and pI: "pI' = pIndex + 1 + 1"
          by (auto simp: ebind_eq_Inr)
        have "sint sy \<le> sint b" using sy False tb by (auto simp: max_def)
        with interpolate_between [OF i2] True
        have cx: "min (sint rx2) (sint sx) \<le> sint cx" "sint cx \<le> max (sint rx2) (sint sx)" by auto
        have P2: "?P \<lparr>x = cx, y = b\<rparr>"
          using cx sx x1 x2 tb by (auto simp: in_box_def min_def max_def split: if_splits)
        from wr_stored [OF w2 st1 P2] wr_length [OF w2] len1 pI show ?thesis by simp
      next
        case False
        with rest st1 len1 show ?thesis by simp
      qed
    qed
  qed
qed

text \<open>The invariants of the two loops and of the two passes.\<close>

lemma rd_Inr: "rd src i = Inr v \<Longrightarrow> 0 \<le> sint i \<and> nat (sint i) < length src \<and> v = src ! nat (sint i)"
  by (auto simp: rd_def split: if_splits)

lemma sint_pred: "0 \<le> sint (n :: int16_t) \<Longrightarrow> n \<noteq> 0 \<Longrightarrow> sint (n - 1) = sint n - 1"
proof -
  assume n: "0 \<le> sint n" "n \<noteq> 0"
  have "sint n \<noteq> 0"
  proof
    assume "sint n = 0"
    then have "word_of_int (sint n) = (0 :: int16_t)" by simp
    with n(2) show False by simp
  qed
  with n sint_16_range [of n] have "- 32768 \<le> sint n - 1" "sint n - 1 \<le> 32767" by auto
  then have "sint (word_of_int (sint n - 1) :: int16_t) = sint n - 1"
    by (rule sint_word_of_int_16)
  then show ?thesis by simp
qed

lemma xloop_inv:
  assumes "xloop src n l r rx1 ry1 pIndex buf = Inr (pI', buf')"
    and "sint l \<le> sint r"
    and "\<forall>v\<in>set src. ylo \<le> sint (y v) \<and> sint (y v) \<le> yhi"
    and "ylo \<le> sint ry1 \<and> sint ry1 \<le> yhi"
    and "stored (in_box (sint l) (sint r) ylo yhi) pIndex buf"
  shows "stored (in_box (sint l) (sint r) ylo yhi) pI' buf' \<and> length buf' = length buf"
  using assms
proof (induction src n l r rx1 ry1 pIndex buf rule: xloop.induct)
  case (1 src n l r rx1 ry1 pIndex buf)
  show ?case
  proof (cases "n = 0")
    case True
    with "1.prems" show ?thesis by (simp add: xloop.simps)
  next
    case False
    from "1.prems"(1) False obtain a c i buf1 where
      step: "xstep src (n - 1) l r rx1 ry1 pIndex buf = Inr (a, c, i, buf1)"
      and loop: "xloop src (n - 1) l r a c i buf1 = Inr (pI', buf')"
      by (subst (asm) xloop.simps) (auto split: sum.splits)
    from step obtain v where rdv: "rd src (n - 1) = Inr v"
      and e: "xedge l r pIndex buf rx1 ry1 (x v) (y v) = Inr (i, buf1)"
      and ac: "a = x v" "c = y v"
      by (auto simp: xstep_def ebind_eq_Inr Let_def)
    from rd_Inr [OF rdv] have "v \<in> set src" by simp
    with "1.prems"(3) have vy: "ylo \<le> sint (y v) \<and> sint (y v) \<le> yhi" by simp
    from xedge_inv [OF e "1.prems"(2) "1.prems"(4) vy "1.prems"(5)]
    have st1: "stored (in_box (sint l) (sint r) ylo yhi) i buf1" and len1: "length buf1 = length buf"
      by simp_all
    have "stored (in_box (sint l) (sint r) ylo yhi) pI' buf' \<and> length buf' = length buf1"
    proof (rule "1.IH" [OF False step refl refl refl loop "1.prems"(2) "1.prems"(3)])
      show "ylo \<le> sint c \<and> sint c \<le> yhi" using vy ac by simp
      show "stored (in_box (sint l) (sint r) ylo yhi) i buf1" by (rule st1)
    qed
    with len1 show ?thesis by simp
  qed
qed

lemma yloop_inv:
  assumes "yloop src n t b rx1 ry1 pIndex buf = Inr (pI', buf')"
    and "sint t \<le> sint b" and "0 \<le> sint n"
    and "\<forall>k. 0 \<le> k \<and> k < sint n \<and> nat k < length src
           \<longrightarrow> xlo \<le> sint (x (src ! nat k)) \<and> sint (x (src ! nat k)) \<le> xhi"
    and "xlo \<le> sint rx1 \<and> sint rx1 \<le> xhi"
    and "stored (in_box xlo xhi (sint t) (sint b)) pIndex buf"
  shows "stored (in_box xlo xhi (sint t) (sint b)) pI' buf' \<and> length buf' = length buf"
  using assms
proof (induction src n t b rx1 ry1 pIndex buf rule: yloop.induct)
  case (1 src n t b rx1 ry1 pIndex buf)
  show ?case
  proof (cases "n = 0")
    case True
    with "1.prems" show ?thesis by (simp add: yloop.simps)
  next
    case False
    from "1.prems"(1) False obtain a c i buf1 where
      step: "ystep src (n - 1) t b rx1 ry1 pIndex buf = Inr (a, c, i, buf1)"
      and loop: "yloop src (n - 1) t b a c i buf1 = Inr (pI', buf')"
      by (subst (asm) yloop.simps) (auto split: sum.splits)
    from step obtain v where rdv: "rd src (n - 1) = Inr v"
      and e: "yedge t b pIndex buf rx1 ry1 (x v) (y v) = Inr (i, buf1)"
      and ac: "a = x v" "c = y v"
      by (auto simp: ystep_def ebind_eq_Inr Let_def)
    have pred: "sint (n - 1) = sint n - 1" using "1.prems"(3) False by (rule sint_pred)
    from rd_Inr [OF rdv] pred have v: "v = src ! nat (sint n - 1)" "nat (sint n - 1) < length src"
      "0 \<le> sint n - 1" by simp_all
    with "1.prems"(4) have vx: "xlo \<le> sint (x v) \<and> sint (x v) \<le> xhi" by simp
    from yedge_inv [OF e "1.prems"(2) "1.prems"(5) vx "1.prems"(6)]
    have st1: "stored (in_box xlo xhi (sint t) (sint b)) i buf1" and len1: "length buf1 = length buf"
      by simp_all
    have "stored (in_box xlo xhi (sint t) (sint b)) pI' buf' \<and> length buf' = length buf1"
    proof (rule "1.IH" [OF False step refl refl refl loop "1.prems"(2)])
      show "0 \<le> sint (n - 1)" using pred v(3) by simp
      show "\<forall>k. 0 \<le> k \<and> k < sint (n - 1) \<and> nat k < length src
           \<longrightarrow> xlo \<le> sint (x (src ! nat k)) \<and> sint (x (src ! nat k)) \<le> xhi"
        using "1.prems"(4) pred by simp
      show "xlo \<le> sint a \<and> sint a \<le> xhi" using vx ac by simp
      show "stored (in_box xlo xhi (sint t) (sint b)) i buf1" by (rule st1)
    qed
    with len1 show ?thesis by simp
  qed
qed

lemma stored_0: "stored P 0 buf"
  by (auto simp: stored_def)

lemma xpass_inv:
  assumes "xpass src n r cb = Inr (c1, cb1)" and "sint (clipLeft r) \<le> sint (clipRight r)"
    and "\<forall>v\<in>set src. ylo \<le> sint (y v) \<and> sint (y v) \<le> yhi"
  shows "stored (in_box (sint (clipLeft r)) (sint (clipRight r)) ylo yhi) c1 cb1
         \<and> length cb1 = length cb"
proof -
  from assms(1) obtain v0 where r0: "rd src 0 = Inr v0"
    and loop: "xloop src n (clipLeft r) (clipRight r) (x v0) (y v0) 0 cb = Inr (c1, cb1)"
    by (auto simp: xpass_def ebind_eq_Inr)
  from rd_Inr [OF r0] have "v0 \<in> set src" by simp
  with assms(3) have "ylo \<le> sint (y v0) \<and> sint (y v0) \<le> yhi" by simp
  from xloop_inv [OF loop assms(2) assms(3) this stored_0] show ?thesis .
qed

lemma ypass_inv:
  assumes "ypass cb1 c1 r cp = Inr (m, q)" and "sint (clipTop r) \<le> sint (clipBottom r)"
    and "0 < sint c1" and "stored (in_box xlo xhi ylo yhi) c1 cb1"
  shows "stored (in_box xlo xhi (sint (clipTop r)) (sint (clipBottom r))) m q
         \<and> length q = length cp"
proof -
  from assms(1) obtain v0 where r0: "rd cb1 0 = Inr v0"
    and loop: "yloop cb1 c1 (clipTop r) (clipBottom r) (x v0) (y v0) 0 cp = Inr (m, q)"
    by (auto simp: ypass_def ebind_eq_Inr)
  have src: "\<forall>k. 0 \<le> k \<and> k < sint c1 \<and> nat k < length cb1
           \<longrightarrow> xlo \<le> sint (x (cb1 ! nat k)) \<and> sint (x (cb1 ! nat k)) \<le> xhi"
    using assms(4) by (simp add: stored_def in_box_def)
  from rd_Inr [OF r0] have v0: "v0 = cb1 ! nat 0" "nat 0 < length cb1" by simp_all
  from src [rule_format, of 0] assms(3) v0
  have "xlo \<le> sint (x v0) \<and> sint (x v0) \<le> xhi" by simp
  from yloop_inv [OF loop assms(2) _ src this stored_0] assms(3) show ?thesis by simp
qed

text \<open>Every vertex of a returned polygon of three or more vertices is inside the region.\<close>

lemma clip_output_inside:
  assumes run: "TwoAxisPolygonClip src n r cb cp = Inr (m, cb1, q)"
    and ok: "clipRect_ok r" and m: "3 \<le> sint m"
  shows "stored (inside r) m q"
proof -
  let ?l = "sint (clipLeft r)" and ?r = "sint (clipRight r)"
  from run obtain c1 where xp: "xpass src n r cb = Inr (c1, cb1)"
    and rest: "(if sint c1 < 3 then Inr (c1, cb1, cp)
                else ebind (ypass cb1 c1 r cp) (\<lambda>(i, q). Inr (i, cb1, q))) = Inr (m, cb1, q)"
    by (auto simp: TwoAxisPolygonClip_def ebind_eq_Inr split: if_splits)
  have all: "\<forall>v\<in>set src. - 32768 \<le> sint (y v) \<and> sint (y v) \<le> 32767"
    using sint_16_range by blast
  from xpass_inv [OF xp _ all] ok
  have st1: "stored (in_box ?l ?r (- 32768) 32767) c1 cb1" by (simp add: clipRect_ok_def)
  show ?thesis
  proof (cases "sint c1 < 3")
    case True
    with rest have "c1 = m" by simp
    with True m show ?thesis by simp
  next
    case False
    with rest have yp: "ypass cb1 c1 r cp = Inr (m, q)" by (auto simp: ebind_eq_Inr)
    from ypass_inv [OF yp _ _ st1] ok False
    have "stored (in_box ?l ?r (sint (clipTop r)) (sint (clipBottom r))) m q"
      by (simp add: clipRect_ok_def)
    then show ?thesis by (simp add: stored_def in_box_def inside_def)
  qed
qed

lemma stored_take:
  assumes "stored P m q" and "0 \<le> sint m"
  shows "length (take (nat (sint m)) q) = nat (sint m) \<and> (\<forall>v\<in>set (take (nat (sint m)) q). P v)"
proof -
  let ?k = "nat (sint m)"
  have idx: "i < ?k \<Longrightarrow> i < length q \<and> P (q ! i)" for i
    using assms(1) [unfolded stored_def, rule_format, of "int i"] by simp
  have le: "?k \<le> length q"
  proof (cases ?k)
    case 0
    then show ?thesis by simp
  next
    case (Suc j)
    with idx [of j] show ?thesis by simp
  qed
  then have len: "length (take ?k q) = ?k" by simp
  have "P v" if "v \<in> set (take ?k q)" for v
  proof -
    from that obtain i where "i < length (take ?k q)" "v = take ?k q ! i"
      by (auto simp: in_set_conv_nth)
    with len idx [of i] show ?thesis by simp
  qed
  with len show ?thesis by blast
qed


text \<open>
  Claim C8: for a clip region with left \<open>\<le>\<close> right and top \<open>\<le>\<close> bottom, when a call
  returns a count \<open>m \<ge> 3\<close> with the output \<open>q\<close>, a second call on the first \<open>m\<close>
  vertices of \<open>q\<close>, with the same region and buffers of at least \<open>m\<close> entries, returns
  \<open>m\<close> and stores the same \<open>m\<close> vertices in the same order. Convexity is not needed.
\<close>

theorem C8_reclip_unchanged:
  assumes "clipRect_ok clipRectangle"
    and "TwoAxisPolygonClip sourcePolygon nVertices clipRectangle clipBuffer clippedPolygon
         = Inr (m, clipBuffer', q)"
    and "3 \<le> sint m"
    and "nat (sint m) \<le> length clipBuffer2" and "nat (sint m) \<le> length clippedPolygon2"
  shows "\<exists>clipBuffer2'.
           TwoAxisPolygonClip (take (nat (sint m)) q) m clipRectangle clipBuffer2 clippedPolygon2
           = Inr (m, clipBuffer2', take (nat (sint m)) q @ drop (nat (sint m)) clippedPolygon2)"
proof -
  let ?q = "take (nat (sint m)) q"
  from clip_output_inside [OF assms(2,1,3)] have st: "stored (inside clipRectangle) m q" .
  from stored_take [OF st] assms(3)
  have len: "length ?q = nat (sint m)" and ins: "\<forall>v\<in>set ?q. inside clipRectangle v" by simp_all
  have n: "sint m = int (length ?q)" using len assms(3) by simp
  have three: "3 \<le> length ?q" using len assms(3) by simp
  from clip_inside [OF n three ins] assms(4,5) len show ?thesis by simp
qed

theorem C8_reclip_unchanged_witness:
  "clipRect_ok \<lparr>clipLeft = 5, clipRight = 15, clipBottom = 15, clipTop = - 5\<rparr>
   \<and> TwoAxisPolygonClip
       [\<lparr>x = 0, y = 0\<rparr>, \<lparr>x = 10, y = 0\<rparr>, \<lparr>x = 10, y = 10\<rparr>, \<lparr>x = 0, y = 10\<rparr>] 4
       \<lparr>clipLeft = 5, clipRight = 15, clipBottom = 15, clipTop = - 5\<rparr>
       [\<lparr>x = 0, y = 0\<rparr>, \<lparr>x = 0, y = 0\<rparr>, \<lparr>x = 0, y = 0\<rparr>, \<lparr>x = 0, y = 0\<rparr>,
        \<lparr>x = 0, y = 0\<rparr>, \<lparr>x = 0, y = 0\<rparr>, \<lparr>x = 0, y = 0\<rparr>, \<lparr>x = 0, y = 0\<rparr>]
       [\<lparr>x = 0, y = 0\<rparr>, \<lparr>x = 0, y = 0\<rparr>, \<lparr>x = 0, y = 0\<rparr>, \<lparr>x = 0, y = 0\<rparr>,
        \<lparr>x = 0, y = 0\<rparr>, \<lparr>x = 0, y = 0\<rparr>, \<lparr>x = 0, y = 0\<rparr>, \<lparr>x = 0, y = 0\<rparr>]
     = Inr (4,
        [\<lparr>x = 5, y = 10\<rparr>, \<lparr>x = 10, y = 10\<rparr>, \<lparr>x = 10, y = 0\<rparr>, \<lparr>x = 5, y = 0\<rparr>,
         \<lparr>x = 0, y = 0\<rparr>, \<lparr>x = 0, y = 0\<rparr>, \<lparr>x = 0, y = 0\<rparr>, \<lparr>x = 0, y = 0\<rparr>],
        [\<lparr>x = 5, y = 10\<rparr>, \<lparr>x = 5, y = 0\<rparr>, \<lparr>x = 10, y = 0\<rparr>, \<lparr>x = 10, y = 10\<rparr>,
         \<lparr>x = 0, y = 0\<rparr>, \<lparr>x = 0, y = 0\<rparr>, \<lparr>x = 0, y = 0\<rparr>, \<lparr>x = 0, y = 0\<rparr>])
   \<and> 3 \<le> sint (4 :: int16_t)
   \<and> (\<exists>clipBuffer2'.
         TwoAxisPolygonClip
           [\<lparr>x = 5, y = 10\<rparr>, \<lparr>x = 5, y = 0\<rparr>, \<lparr>x = 10, y = 0\<rparr>, \<lparr>x = 10, y = 10\<rparr>] 4
           \<lparr>clipLeft = 5, clipRight = 15, clipBottom = 15, clipTop = - 5\<rparr>
           [\<lparr>x = 1, y = 1\<rparr>, \<lparr>x = 1, y = 1\<rparr>, \<lparr>x = 1, y = 1\<rparr>, \<lparr>x = 1, y = 1\<rparr>]
           [\<lparr>x = 2, y = 2\<rparr>, \<lparr>x = 2, y = 2\<rparr>, \<lparr>x = 2, y = 2\<rparr>, \<lparr>x = 2, y = 2\<rparr>, \<lparr>x = 2, y = 2\<rparr>]
         = Inr (4, clipBuffer2',
             [\<lparr>x = 5, y = 10\<rparr>, \<lparr>x = 5, y = 0\<rparr>, \<lparr>x = 10, y = 0\<rparr>, \<lparr>x = 10, y = 10\<rparr>,
              \<lparr>x = 2, y = 2\<rparr>]))"
proof -
  let ?r = "\<lparr>clipLeft = 5, clipRight = 15, clipBottom = 15, clipTop = - 5\<rparr>"
  let ?z = "\<lparr>x = 0, y = (0 :: int16_t)\<rparr>"
  let ?q = "[\<lparr>x = 5, y = 10\<rparr>, \<lparr>x = 5, y = 0\<rparr>, \<lparr>x = 10, y = 0\<rparr>, \<lparr>x = 10, y = 10\<rparr>, ?z, ?z, ?z, ?z]"
  let ?cb2 = "[\<lparr>x = 1, y = 1\<rparr>, \<lparr>x = 1, y = 1\<rparr>, \<lparr>x = 1, y = 1\<rparr>, \<lparr>x = 1, y = (1 :: int16_t)\<rparr>]"
  let ?cp2 = "[\<lparr>x = 2, y = 2\<rparr>, \<lparr>x = 2, y = 2\<rparr>, \<lparr>x = 2, y = 2\<rparr>, \<lparr>x = 2, y = 2\<rparr>, \<lparr>x = 2, y = (2 :: int16_t)\<rparr>]"
  have h1: "clipRect_ok ?r" by (simp add: clipRect_ok_def)
  have h2: "TwoAxisPolygonClip
       [\<lparr>x = 0, y = 0\<rparr>, \<lparr>x = 10, y = 0\<rparr>, \<lparr>x = 10, y = 10\<rparr>, \<lparr>x = 0, y = 10\<rparr>] 4 ?r
       [?z, ?z, ?z, ?z, ?z, ?z, ?z, ?z] [?z, ?z, ?z, ?z, ?z, ?z, ?z, ?z]
     = Inr (4,
        [\<lparr>x = 5, y = 10\<rparr>, \<lparr>x = 10, y = 10\<rparr>, \<lparr>x = 10, y = 0\<rparr>, \<lparr>x = 5, y = 0\<rparr>, ?z, ?z, ?z, ?z],
        ?q)"
    by (simp add: clip_defs)
  have h3: "3 \<le> sint (4 :: int16_t)" by simp
  have h4: "nat (sint (4 :: int16_t)) \<le> length ?cb2" by simp
  have h5: "nat (sint (4 :: int16_t)) \<le> length ?cp2" by simp
  show ?thesis
    using h1 h2 h3 C8_reclip_unchanged [OF h1 h2 h3 h4 h5] by simp
qed

section \<open>Polygons outside the region\<close>

text \<open>A pass over points that are all beyond the same bound rejects every edge.\<close>

lemma xloop_all_rejected:
  assumes "k \<le> length src" and "k \<le> 32767"
    and "(sint (x (p :: vertex)) < sint l \<and> (\<forall>i<k. sint (x (src ! i)) < sint l))
       \<or> (sint r < sint (x p) \<and> (\<forall>i<k. sint r < sint (x (src ! i))))"
  shows "xloop src (of_nat k) l r (x p) (y p) pIndex buf = Inr (pIndex, buf)"
  using assms
proof (induction k arbitrary: p)
  case 0
  then show ?case by (simp add: xloop.simps)
next
  case (Suc k)
  let ?v = "src ! k"
  have k: "k < length src" "k \<le> 32767" using Suc.prems by auto
  have rej: "xedge l r pIndex buf (x p) (y p) (x ?v) (y ?v) = Inr (pIndex, buf)"
    using Suc.prems(3) by (auto simp: xedge_def)
  have step: "xstep src (of_nat k) l r (x p) (y p) pIndex buf = Inr (x ?v, y ?v, pIndex, buf)"
    using k rej by (simp add: xstep_def rd_of_nat Let_def)
  have ih: "xloop src (of_nat k) l r (x ?v) (y ?v) pIndex buf = Inr (pIndex, buf)"
    by (rule Suc.IH) (use Suc.prems in auto)
  have nz: "(of_nat (Suc k) :: int16_t) \<noteq> 0"
    using Suc.prems by (intro of_nat_Suc_neq_0_16) simp
  have "xloop src (of_nat (Suc k)) l r (x p) (y p) pIndex buf
      = xloop src (of_nat k) l r (x ?v) (y ?v) pIndex buf"
    using nz step by (subst xloop.simps) simp
  with ih show ?case by simp
qed

lemma yloop_all_rejected:
  assumes "k \<le> length src" and "k \<le> 32767"
    and "(sint (y (p :: vertex)) < sint t \<and> (\<forall>i<k. sint (y (src ! i)) < sint t))
       \<or> (sint b < sint (y p) \<and> (\<forall>i<k. sint b < sint (y (src ! i))))"
  shows "yloop src (of_nat k) t b (x p) (y p) pIndex buf = Inr (pIndex, buf)"
  using assms
proof (induction k arbitrary: p)
  case 0
  then show ?case by (simp add: yloop.simps)
next
  case (Suc k)
  let ?v = "src ! k"
  have k: "k < length src" "k \<le> 32767" using Suc.prems by auto
  have rej: "yedge t b pIndex buf (x p) (y p) (x ?v) (y ?v) = Inr (pIndex, buf)"
    using Suc.prems(3) by (auto simp: yedge_def)
  have step: "ystep src (of_nat k) t b (x p) (y p) pIndex buf = Inr (x ?v, y ?v, pIndex, buf)"
    using k rej by (simp add: ystep_def rd_of_nat Let_def)
  have ih: "yloop src (of_nat k) t b (x ?v) (y ?v) pIndex buf = Inr (pIndex, buf)"
    by (rule Suc.IH) (use Suc.prems in auto)
  have nz: "(of_nat (Suc k) :: int16_t) \<noteq> 0"
    using Suc.prems by (intro of_nat_Suc_neq_0_16) simp
  have "yloop src (of_nat (Suc k)) t b (x p) (y p) pIndex buf
      = yloop src (of_nat k) t b (x ?v) (y ?v) pIndex buf"
    using nz step by (subst yloop.simps) simp
  with ih show ?case by simp
qed

lemma clip_x_outside:
  assumes n: "sint nVertices = int (length src)" and ne: "src \<noteq> []" and out: "x_outside r src"
  shows "TwoAxisPolygonClip src nVertices r cb cp = Inr (0, cb, cp)"
proof -
  from of_nat_sint_16 [OF n] have nv: "nVertices = of_nat (length src)" and le: "length src \<le> 32767"
    by simp_all
  have "xloop src (of_nat (length src)) (clipLeft r) (clipRight r) (x (hd src)) (y (hd src)) 0 cb
        = Inr (0, cb)"
  proof (intro xloop_all_rejected)
    show "(sint (x (hd src)) < sint (clipLeft r)
           \<and> (\<forall>i<length src. sint (x (src ! i)) < sint (clipLeft r)))
        \<or> (sint (clipRight r) < sint (x (hd src))
           \<and> (\<forall>i<length src. sint (clipRight r) < sint (x (src ! i))))"
      using out ne by (auto simp: x_outside_def list_all_length hd_conv_nth)
  qed (use le in auto)
  then have "xpass src nVertices r cb = Inr (0, cb)"
    using ne by (simp add: xpass_def rd_0 nv)
  then show ?thesis by (simp add: TwoAxisPolygonClip_def)
qed

lemma of_nat_nat_sint: "0 \<le> sint (c :: int16_t) \<Longrightarrow> of_nat (nat (sint c)) = c"
  by (simp add: of_nat_nat)

lemma ypass_y_outside:
  assumes st: "stored (in_box xlo xhi ylo yhi) c1 cb1" and c1: "0 < sint c1"
    and out: "yhi < sint (clipTop r) \<or> sint (clipBottom r) < ylo"
  shows "ypass cb1 c1 r cp = Inr (0, cp)"
proof -
  let ?k = "nat (sint c1)"
  have idx: "i < ?k \<Longrightarrow> i < length cb1 \<and> in_box xlo xhi ylo yhi (cb1 ! i)" for i
    using st [unfolded stored_def, rule_format, of "int i"] by simp
  have "?k - 1 < ?k" using c1 by simp
  from idx [OF this] have "?k - 1 < length cb1" by simp
  then have le: "?k \<le> length cb1" by arith
  have k: "?k \<le> 32767" using sint_16_range [of c1] by arith
  from idx [of 0] c1 have ne: "cb1 \<noteq> []" and b0: "in_box xlo xhi ylo yhi (hd cb1)"
    by (auto simp: hd_conv_nth)
  have "yloop cb1 (of_nat ?k) (clipTop r) (clipBottom r) (x (hd cb1)) (y (hd cb1)) 0 cp = Inr (0, cp)"
  proof (intro yloop_all_rejected)
    show "(sint (y (hd cb1)) < sint (clipTop r)
           \<and> (\<forall>i<?k. sint (y (cb1 ! i)) < sint (clipTop r)))
        \<or> (sint (clipBottom r) < sint (y (hd cb1))
           \<and> (\<forall>i<?k. sint (clipBottom r) < sint (y (cb1 ! i))))"
      using out b0 idx by (fastforce simp: in_box_def)
  qed (use le k in auto)
  moreover have "of_nat ?k = c1" using c1 by (intro of_nat_nat_sint) simp
  ultimately show ?thesis using ne by (simp add: ypass_def rd_0)
qed

lemma clip_y_outside:
  assumes xp: "xpass src n r cb = Inr (c1, cb1)"
    and lr: "sint (clipLeft r) \<le> sint (clipRight r)" and out: "y_outside r src"
  shows "TwoAxisPolygonClip src n r cb cp = Inr (if sint c1 < 3 then c1 else 0, cb1, cp)"
proof (cases "sint c1 < 3")
  case True
  with xp show ?thesis by (simp add: TwoAxisPolygonClip_def)
next
  case False
  from out consider
    (top) "\<forall>v\<in>set src. - 32768 \<le> sint (y v) \<and> sint (y v) \<le> sint (clipTop r) - 1" |
    (bottom) "\<forall>v\<in>set src. sint (clipBottom r) + 1 \<le> sint (y v) \<and> sint (y v) \<le> 32767"
    using sint_16_range by (fastforce simp: y_outside_def list_all_iff)
  then have "ypass cb1 c1 r cp = Inr (0, cp)"
  proof cases
    case top
    from xpass_inv [OF xp lr top] False show ?thesis by (intro ypass_y_outside) auto
  next
    case bottom
    from xpass_inv [OF xp lr bottom] False show ?thesis by (intro ypass_y_outside) auto
  qed
  with xp False show ?thesis by (simp add: TwoAxisPolygonClip_def)
qed

section \<open>The X pass completes\<close>

text \<open>
  An interpolation whose bound lies between the end points of an edge of non-zero delta,
  and whose other coordinates differ by at most 32767, has a defined result; so has the
  X pass over a polygon of that height, into a buffer of twice its vertex count.
\<close>

lemma interpolate_total:
  assumes btw: "(sint p \<le> sint c \<and> sint c \<le> sint q) \<or> (sint q \<le> sint c \<and> sint c \<le> sint p)"
    and ne: "sint p \<noteq> sint q" and d: "\<bar>sint b - sint a\<bar> \<le> 32767"
  shows "\<exists>v. interpolate a b c p q = Inr v"
proof -
  let ?D = "sint b - sint a" and ?T = "sint c - sint p" and ?L = "sint q - sint p"
  have L: "?L \<noteq> 0" using ne by simp
  have rng: "(0 \<le> ?T \<and> ?T \<le> ?L) \<or> (?L \<le> ?T \<and> ?T \<le> 0)" using btw by auto
  have T: "\<bar>?T\<bar> \<le> 65535"
    using rng sint_16_range [of p] sint_16_range [of q] by auto
  have "\<bar>?D\<bar> * \<bar>?T\<bar> \<le> 32767 * 65535"
    using d T by (intro mult_mono) simp_all
  then have num: "int_ok (?D * ?T)"
    by (simp add: int_ok_def abs_mult [symmetric] abs_le_iff)
  from sdiv_scaled [OF rng L, of ?D] obtain m
    where m: "(?D * ?T) sdiv ?L = sgn ?D * m" "0 \<le> m" "m \<le> \<bar>?D\<bar>" by blast
  have q: "\<bar>(?D * ?T) sdiv ?L\<bar> \<le> 32767"
    unfolding m(1) using m(2,3) d by (auto simp: sgn_if)
  then have quo: "int_ok ((?D * ?T) sdiv ?L)" by (simp add: int_ok_def abs_le_iff)
  have sum: "int_ok (sint a + (?D * ?T) sdiv ?L)"
    using q sint_16_range [of a] by (simp add: int_ok_def abs_le_iff)
  show ?thesis using L num quo sum by (simp add: interpolate_def Let_def)
qed

lemma xedge_total:
  assumes lr: "sint l \<le> sint r" and cap: "j + 2 \<le> length buf" "j + 2 \<le> 32767"
    and dy: "\<bar>sint ry2 - sint ry1\<bar> \<le> 32767"
  shows "\<exists>j' buf'. xedge l r (of_nat j) buf rx1 ry1 rx2 ry2 = Inr (of_nat j', buf')
           \<and> j' \<le> j + 2 \<and> length buf' = length buf"
proof -
  have w: "\<exists>b1. wr b (of_nat i) u v = Inr b1 \<and> length b1 = length b"
    if "i < length b" "i \<le> 32767" for b i u v
    using that by (simp add: wr_of_nat)
  have s1: "of_nat j + (1 :: int16_t) = of_nat (Suc j)" by simp
  have s2: "of_nat (Suc j) + (1 :: int16_t) = of_nat (Suc (Suc j))" by simp
  show ?thesis
  proof (cases "sint rx1 > sint rx2")
    case dec: True
    show ?thesis
    proof (cases "sint rx1 < sint l \<or> sint rx2 > sint r")
      case True
      with dec show ?thesis by (auto simp: xedge_def intro!: exI [of _ j])
    next
      case False
      have "\<exists>sx sy. (if sint rx1 > sint r then ebind (interpolate ry1 ry2 r rx1 rx2) (\<lambda>c. Inr (r, c))
             else Inr (rx1, ry1)) = Inr (sx, sy)"
      proof (cases "sint rx1 > sint r")
        case True
        with False dec interpolate_total [of rx1 r rx2 ry2 ry1] dy show ?thesis by auto
      next
        case False
        then show ?thesis by simp
      qed
      then obtain sx sy where
        s: "(if sint rx1 > sint r then ebind (interpolate ry1 ry2 r rx1 rx2) (\<lambda>c. Inr (r, c))
             else Inr (rx1, ry1)) = Inr (sx, sy)" by blast
      from False have "\<not> sint rx2 > sint r" by simp
      from start_hi [OF s dec this]
      have sx: "sint sx = min (sint rx1) (sint r)" "sint rx2 \<le> sint sx"
        and sy: "min (sint ry1) (sint ry2) \<le> sint sy" "sint sy \<le> max (sint ry1) (sint ry2)"
        by blast+
      from w [of j buf sx sy] cap obtain buf1 where
        w1: "wr buf (of_nat j) sx sy = Inr buf1" and len1: "length buf1 = length buf" by auto
      show ?thesis
      proof (cases "sint rx2 < sint l")
        case True
        have "sint l \<le> sint sx" using sx False lr by (auto simp: min_def)
        moreover have "\<bar>sint sy - sint ry2\<bar> \<le> 32767"
          using sy dy by (auto simp: min_def max_def split: if_splits)
        ultimately obtain cy where i2: "interpolate ry2 sy l rx2 sx = Inr cy"
          using interpolate_total [of rx2 l sx sy ry2] True by auto
        from w [of "Suc j" buf1 l cy] cap len1 obtain buf2 where
          w2: "wr buf1 (of_nat (Suc j)) l cy = Inr buf2" and len2: "length buf2 = length buf1" by auto
        have "xedge l r (of_nat j) buf rx1 ry1 rx2 ry2 = Inr (of_nat (Suc (Suc j)), buf2)"
          using dec False s w1 True i2 w2 by (simp add: xedge_def Let_def s1 s2 del: of_nat_Suc)
        with len1 len2 show ?thesis by (intro exI [of _ "Suc (Suc j)"] exI [of _ buf2]) simp
      next
        case nx: False
        have "xedge l r (of_nat j) buf rx1 ry1 rx2 ry2 = Inr (of_nat (Suc j), buf1)"
          using dec False s w1 nx by (simp add: xedge_def Let_def s1 del: of_nat_Suc)
        with len1 show ?thesis by (intro exI [of _ "Suc j"] exI [of _ buf1]) simp
      qed
    qed
  next
    case inc: False
    show ?thesis
    proof (cases "sint rx2 < sint l \<or> sint rx1 > sint r")
      case True
      with inc show ?thesis by (auto simp: xedge_def intro!: exI [of _ j])
    next
      case False
      have "\<exists>sx sy. (if sint rx1 < sint l then ebind (interpolate ry1 ry2 l rx1 rx2) (\<lambda>c. Inr (l, c))
             else Inr (rx1, ry1)) = Inr (sx, sy)"
      proof (cases "sint rx1 < sint l")
        case True
        with False inc interpolate_total [of rx1 l rx2 ry2 ry1] dy show ?thesis by auto
      next
        case False
        then show ?thesis by simp
      qed
      then obtain sx sy where
        s: "(if sint rx1 < sint l then ebind (interpolate ry1 ry2 l rx1 rx2) (\<lambda>c. Inr (l, c))
             else Inr (rx1, ry1)) = Inr (sx, sy)" by blast
      from False have "\<not> sint rx2 < sint l" by simp
      from start_lo [OF s inc this]
      have sx: "sint sx = max (sint rx1) (sint l)" "sint sx \<le> sint rx2"
        and sy: "min (sint ry1) (sint ry2) \<le> sint sy" "sint sy \<le> max (sint ry1) (sint ry2)"
        by blast+
      from w [of j buf sx sy] cap obtain buf1 where
        w1: "wr buf (of_nat j) sx sy = Inr buf1" and len1: "length buf1 = length buf" by auto
      show ?thesis
      proof (cases "sint rx2 > sint r")
        case True
        have "sint sx \<le> sint r" using sx False lr by (auto simp: max_def)
        moreover have "\<bar>sint sy - sint ry2\<bar> \<le> 32767"
          using sy dy by (auto simp: min_def max_def split: if_splits)
        ultimately obtain cy where i2: "interpolate ry2 sy r rx2 sx = Inr cy"
          using interpolate_total [of rx2 r sx sy ry2] True by auto
        from w [of "Suc j" buf1 r cy] cap len1 obtain buf2 where
          w2: "wr buf1 (of_nat (Suc j)) r cy = Inr buf2" and len2: "length buf2 = length buf1" by auto
        have "xedge l r (of_nat j) buf rx1 ry1 rx2 ry2 = Inr (of_nat (Suc (Suc j)), buf2)"
          using inc False s w1 True i2 w2 by (simp add: xedge_def Let_def s1 s2 del: of_nat_Suc)
        with len1 len2 show ?thesis by (intro exI [of _ "Suc (Suc j)"] exI [of _ buf2]) simp
      next
        case nx: False
        have "xedge l r (of_nat j) buf rx1 ry1 rx2 ry2 = Inr (of_nat (Suc j), buf1)"
          using inc False s w1 nx by (simp add: xedge_def Let_def s1 del: of_nat_Suc)
        with len1 show ?thesis by (intro exI [of _ "Suc j"] exI [of _ buf1]) simp
      qed
    qed
  qed
qed

lemma xloop_total:
  assumes "sint l \<le> sint r" and "k \<le> length src"
    and "j + 2 * k \<le> length buf" and "j + 2 * k \<le> 32767"
    and "\<forall>v\<in>set src. \<forall>w\<in>set src. \<bar>sint (y v) - sint (y w)\<bar> \<le> 32767"
    and "(p :: vertex) \<in> set src"
  shows "\<exists>j' buf'. xloop src (of_nat k) l r (x p) (y p) (of_nat j) buf = Inr (of_nat j', buf')
           \<and> j' \<le> j + 2 * k \<and> length buf' = length buf"
  using assms
proof (induction k arbitrary: p j buf)
  case 0
  then show ?case by (auto simp: xloop.simps)
next
  case (Suc k)
  let ?v = "src ! k"
  have k: "k < length src" "k \<le> 32767" using Suc.prems by auto
  then have v: "?v \<in> set src" by simp
  with Suc.prems(5,6) have dy: "\<bar>sint (y ?v) - sint (y p)\<bar> \<le> 32767" by blast
  from xedge_total [OF Suc.prems(1) _ _ dy, of j buf "x p" "x ?v"] Suc.prems(3,4)
  obtain j1 buf1 where e: "xedge l r (of_nat j) buf (x p) (y p) (x ?v) (y ?v) = Inr (of_nat j1, buf1)"
    and j1: "j1 \<le> j + 2" and len1: "length buf1 = length buf" by auto
  have step: "xstep src (of_nat k) l r (x p) (y p) (of_nat j) buf
              = Inr (x ?v, y ?v, of_nat j1, buf1)"
    using k e by (simp add: xstep_def rd_of_nat Let_def)
  have "\<exists>j' buf'. xloop src (of_nat k) l r (x ?v) (y ?v) (of_nat j1) buf1 = Inr (of_nat j', buf')
           \<and> j' \<le> j1 + 2 * k \<and> length buf' = length buf1"
    by (rule Suc.IH) (use Suc.prems j1 len1 v in auto)
  then obtain j' buf' where
    ih: "xloop src (of_nat k) l r (x ?v) (y ?v) (of_nat j1) buf1 = Inr (of_nat j', buf')"
    and j': "j' \<le> j1 + 2 * k" and len': "length buf' = length buf1" by blast
  have nz: "(of_nat (Suc k) :: int16_t) \<noteq> 0"
    using Suc.prems by (intro of_nat_Suc_neq_0_16) simp
  have "xloop src (of_nat (Suc k)) l r (x p) (y p) (of_nat j) buf
      = xloop src (of_nat k) l r (x ?v) (y ?v) (of_nat j1) buf1"
    using nz step by (subst xloop.simps) simp
  with ih j' j1 len' len1 show ?case
    by (intro exI [of _ j'] exI [of _ buf']) simp
qed

lemma xpass_total:
  assumes n: "sint nVertices = int (length src)" and ne: "src \<noteq> []"
    and lr: "sint (clipLeft r) \<le> sint (clipRight r)"
    and cap: "2 * length src \<le> length cb" "2 * length src \<le> 32767"
    and dy: "\<forall>v\<in>set src. \<forall>w\<in>set src. \<bar>sint (y v) - sint (y w)\<bar> \<le> 32767"
  shows "\<exists>c1 cb1. xpass src nVertices r cb = Inr (c1, cb1)"
proof -
  from of_nat_sint_16 [OF n] have nv: "nVertices = of_nat (length src)" by simp
  from xloop_total [OF lr _ _ _ dy, of "length src" 0 cb "hd src"] cap ne
  obtain j' buf' where
    "xloop src (of_nat (length src)) (clipLeft r) (clipRight r) (x (hd src)) (y (hd src)) (of_nat 0) cb
     = Inr (of_nat j', buf')" by auto
  then show ?thesis using ne by (simp add: xpass_def rd_0 nv)
qed

text \<open>
  Claim C3: for a polygon given with its vertex count, entirely beyond one bound of a
  clip region with left \<open>\<le>\<close> right and top \<open>\<le>\<close> bottom: every call that returns, returns
  a count below 3 and leaves the output buffer untouched; when the polygon is beyond the
  left or the right bound the call returns 0 with both buffers untouched, whatever their
  size (the triangle left of a region with left 100 is such a polygon); when it is
  beyond the top or the bottom bound the call returns, given a scratch buffer of
  \<open>2 \<times> nVertices \<le> 32767\<close> entries and a polygon whose extent in \<open>y\<close> is at most 32767.
\<close>

theorem C3_outside_invisible:
  assumes n: "sint nVertices = int (length sourcePolygon)" and ne: "sourcePolygon \<noteq> []"
    and ok: "clipRect_ok clipRectangle"
    and out: "x_outside clipRectangle sourcePolygon \<or> y_outside clipRectangle sourcePolygon"
  shows "(\<forall>c cb' cp'.
            TwoAxisPolygonClip sourcePolygon nVertices clipRectangle clipBuffer clippedPolygon
              = Inr (c, cb', cp') \<longrightarrow> sint c < 3 \<and> cp' = clippedPolygon)
       \<and> (x_outside clipRectangle sourcePolygon \<longrightarrow>
            TwoAxisPolygonClip sourcePolygon nVertices clipRectangle clipBuffer clippedPolygon
              = Inr (0, clipBuffer, clippedPolygon))
       \<and> (2 * length sourcePolygon \<le> length clipBuffer \<and> 2 * length sourcePolygon \<le> 32767
            \<and> height_ok sourcePolygon \<longrightarrow>
            (\<exists>c cb'.
               TwoAxisPolygonClip sourcePolygon nVertices clipRectangle clipBuffer clippedPolygon
                 = Inr (c, cb', clippedPolygon) \<and> sint c < 3))"
proof -
  let ?run = "TwoAxisPolygonClip sourcePolygon nVertices clipRectangle clipBuffer clippedPolygon"
  have lr: "sint (clipLeft clipRectangle) \<le> sint (clipRight clipRectangle)"
    using ok by (simp add: clipRect_ok_def)
  have xo: "?run = Inr (0, clipBuffer, clippedPolygon)" if "x_outside clipRectangle sourcePolygon"
    using clip_x_outside [OF n ne that] .
  have yo: "?run = Inr (if sint c1 < 3 then c1 else 0, cb1, clippedPolygon)"
    if "y_outside clipRectangle sourcePolygon"
      and "xpass sourcePolygon nVertices clipRectangle clipBuffer = Inr (c1, cb1)" for c1 cb1
    using clip_y_outside [OF that(2) lr that(1)] .
  have part: "sint c < 3 \<and> cp' = clippedPolygon" if r: "?run = Inr (c, cb', cp')" for c cb' cp'
  proof (cases "x_outside clipRectangle sourcePolygon")
    case True
    from xo [OF True] r show ?thesis by simp
  next
    case False
    with out have y: "y_outside clipRectangle sourcePolygon" by simp
    from r obtain c1 cb1 where
      xp: "xpass sourcePolygon nVertices clipRectangle clipBuffer = Inr (c1, cb1)"
      by (auto simp: TwoAxisPolygonClip_def ebind_eq_Inr)
    from yo [OF y xp] r show ?thesis by (auto split: if_splits)
  qed
  have tot: "\<exists>c cb'. ?run = Inr (c, cb', clippedPolygon) \<and> sint c < 3"
    if cap: "2 * length sourcePolygon \<le> length clipBuffer" "2 * length sourcePolygon \<le> 32767"
      and h: "height_ok sourcePolygon"
  proof (cases "x_outside clipRectangle sourcePolygon")
    case True
    from xo [OF True] show ?thesis by simp
  next
    case False
    with out have y: "y_outside clipRectangle sourcePolygon" by simp
    from xpass_total [OF n ne lr cap] h obtain c1 cb1 where
      xp: "xpass sourcePolygon nVertices clipRectangle clipBuffer = Inr (c1, cb1)"
      by (auto simp: height_ok_def)
    from yo [OF y xp] show ?thesis by auto
  qed
  from part xo tot show ?thesis by blast
qed

theorem C3_outside_invisible_witness:
  "sint (3 :: int16_t) = int (length [\<lparr>x = 0, y = 0\<rparr>, \<lparr>x = 50, y = 0\<rparr>, \<lparr>x = 25, y = (50 :: int16_t)\<rparr>])
   \<and> [\<lparr>x = 0, y = 0\<rparr>, \<lparr>x = 50, y = 0\<rparr>, \<lparr>x = 25, y = (50 :: int16_t)\<rparr>] \<noteq> []
   \<and> clipRect_ok \<lparr>clipLeft = 100, clipRight = 200, clipBottom = 100, clipTop = 0\<rparr>
   \<and> x_outside \<lparr>clipLeft = 100, clipRight = 200, clipBottom = 100, clipTop = 0\<rparr>
       [\<lparr>x = 0, y = 0\<rparr>, \<lparr>x = 50, y = 0\<rparr>, \<lparr>x = 25, y = 50\<rparr>]
   \<and> TwoAxisPolygonClip [\<lparr>x = 0, y = 0\<rparr>, \<lparr>x = 50, y = 0\<rparr>, \<lparr>x = 25, y = 50\<rparr>] 3
       \<lparr>clipLeft = 100, clipRight = 200, clipBottom = 100, clipTop = 0\<rparr>
       (replicate 6 \<lparr>x = 7, y = 7\<rparr>) (replicate 6 \<lparr>x = 9, y = 9\<rparr>)
     = Inr (0, replicate 6 \<lparr>x = 7, y = 7\<rparr>, replicate 6 \<lparr>x = 9, y = 9\<rparr>)
   \<and> y_outside \<lparr>clipLeft = 10, clipRight = 30, clipBottom = 20, clipTop = 0\<rparr>
       [\<lparr>x = 0, y = - 30\<rparr>, \<lparr>x = 40, y = - 30\<rparr>, \<lparr>x = 20, y = - 10\<rparr>]
   \<and> height_ok [\<lparr>x = 0, y = - 30\<rparr>, \<lparr>x = 40, y = - 30\<rparr>, \<lparr>x = 20, y = - 10\<rparr>]
   \<and> (\<exists>c cb'.
        TwoAxisPolygonClip [\<lparr>x = 0, y = - 30\<rparr>, \<lparr>x = 40, y = - 30\<rparr>, \<lparr>x = 20, y = - 10\<rparr>] 3
          \<lparr>clipLeft = 10, clipRight = 30, clipBottom = 20, clipTop = 0\<rparr>
          (replicate 6 \<lparr>x = 7, y = 7\<rparr>) (replicate 6 \<lparr>x = 9, y = 9\<rparr>)
        = Inr (c, cb', replicate 6 \<lparr>x = 9, y = 9\<rparr>) \<and> sint c < 3)"
proof -
  let ?a = "[\<lparr>x = 0, y = 0\<rparr>, \<lparr>x = 50, y = 0\<rparr>, \<lparr>x = 25, y = (50 :: int16_t)\<rparr>]"
  let ?ra = "\<lparr>clipLeft = 100, clipRight = 200, clipBottom = 100, clipTop = 0\<rparr>"
  let ?b = "[\<lparr>x = 0, y = - 30\<rparr>, \<lparr>x = 40, y = - 30\<rparr>, \<lparr>x = 20, y = (- 10 :: int16_t)\<rparr>]"
  let ?rb = "\<lparr>clipLeft = 10, clipRight = 30, clipBottom = 20, clipTop = 0\<rparr>"
  have a1: "sint (3 :: int16_t) = int (length ?a)" by simp
  have a2: "?a \<noteq> []" by simp
  have a3: "clipRect_ok ?ra" by (simp add: clipRect_ok_def)
  have a4: "x_outside ?ra ?a" by (simp add: x_outside_def)
  have b1: "sint (3 :: int16_t) = int (length ?b)" by simp
  have b2: "?b \<noteq> []" by simp
  have b3: "clipRect_ok ?rb" by (simp add: clipRect_ok_def)
  have b4: "y_outside ?rb ?b" by (simp add: y_outside_def)
  have b5: "height_ok ?b" by (simp add: height_ok_def)
  have b6: "2 * length ?b \<le> length (replicate 6 \<lparr>x = 7, y = (7 :: int16_t)\<rparr>)"
    "2 * length ?b \<le> 32767" by simp_all
  from C3_outside_invisible [OF a1 a2 a3 disjI1 [OF a4],
      of "replicate 6 \<lparr>x = 7, y = 7\<rparr>" "replicate 6 \<lparr>x = 9, y = 9\<rparr>"] a4
  have ra: "TwoAxisPolygonClip ?a 3 ?ra (replicate 6 \<lparr>x = 7, y = 7\<rparr>) (replicate 6 \<lparr>x = 9, y = 9\<rparr>)
     = Inr (0, replicate 6 \<lparr>x = 7, y = 7\<rparr>, replicate 6 \<lparr>x = 9, y = 9\<rparr>)" by blast
  from C3_outside_invisible [OF b1 b2 b3 disjI2 [OF b4],
      of "replicate 6 \<lparr>x = 7, y = 7\<rparr>" "replicate 6 \<lparr>x = 9, y = 9\<rparr>"] b5 b6
  have rb: "\<exists>c cb'. TwoAxisPolygonClip ?b 3 ?rb (replicate 6 \<lparr>x = 7, y = 7\<rparr>) (replicate 6 \<lparr>x = 9, y = 9\<rparr>)
     = Inr (c, cb', replicate 6 \<lparr>x = 9, y = 9\<rparr>) \<and> sint c < 3" by blast
  from a1 a2 a3 a4 ra b4 b5 rb show ?thesis by blast
qed

end
